theory Spec2Isabelle
  imports Main "HOL-Library.Word"
begin

section \<open>Bytes, integers and errors\<close>

text \<open>
  The generator script \<^verbatim>\<open>scripts/data/generate_utreexo_data.py\<close> works on Python
  \<^verbatim>\<open>bytes\<close> objects, unbounded Python integers and exceptions.  A byte is an 8-bit
  word, a Python \<^verbatim>\<open>int\<close> is an \<^typ>\<open>int\<close>, and every exception the modelled code can
  raise is a value of \<open>error\<close>; a computation that can raise returns \<open>error + 'a\<close>
  with \<open>Inl\<close> for the exception.  \<open>StructuralInconsistency\<close> stands for the exception
  of an accumulator asked to delete a leaf it does not hold, \<open>AccumulatorError\<close> for any
  other exception of the accumulator.
\<close>

type_synonym byte = "8 word"

datatype error =
    ValueError
  | OverflowError
  | StructuralInconsistency
  | AccumulatorError nat

text \<open>
  \<^verbatim>\<open>int.from_bytes(bs, "big")\<close> and \<^verbatim>\<open>int.from_bytes(bs, "little")\<close>.
\<close>

definition from_bytes_big :: "byte list \<Rightarrow> int" where
  "from_bytes_big bs = foldl (\<lambda>acc b. acc * 256 + uint b) 0 bs"

fun from_bytes_little :: "byte list \<Rightarrow> int" where
  "from_bytes_little [] = 0"
| "from_bytes_little (b # bs) = uint b + 256 * from_bytes_little bs"

text \<open>
  The digits of \<^verbatim>\<open>x.to_bytes(n, byteorder="big")\<close>: the \<open>n\<close> low base-256 digits of
  \<open>x\<close>, most significant first.  Python raises \<^verbatim>\<open>OverflowError\<close> when \<open>x\<close> is
  negative or does not fit into \<open>n\<close> bytes.
\<close>

fun digits_little :: "int \<Rightarrow> nat \<Rightarrow> byte list" where
  "digits_little x 0 = []"
| "digits_little x (Suc n) = word_of_int (x mod 256) # digits_little (x div 256) n"

definition digits_big :: "int \<Rightarrow> nat \<Rightarrow> byte list" where
  "digits_big x n = rev (digits_little x n)"

definition to_bytes_big :: "int \<Rightarrow> nat \<Rightarrow> error + byte list" where
  "to_bytes_big x n =
     (if x < 0 \<or> 256 ^ n \<le> x then Inl OverflowError else Inr (digits_big x n))"

section \<open>Decoding the script text\<close>

text \<open>
  A Python \<^verbatim>\<open>str\<close> is modelled as a \<^typ>\<open>string\<close> whose characters are the code points
  0..255; strings with code points above 255 are outside the model.  \<^verbatim>\<open>bytes.fromhex\<close>
  skips ASCII whitespace in front of a byte, then wants two hexadecimal digits, and raises
  \<^verbatim>\<open>ValueError\<close> on anything else.
\<close>

definition isspace :: "char \<Rightarrow> bool" where
  "isspace c = (of_char c \<in> {9, 10, 11, 12, 13, 32 :: nat})"

definition hexval :: "char \<Rightarrow> nat option" where
  "hexval c =
     (let k = (of_char c :: nat) in
      if 48 \<le> k \<and> k \<le> 57 then Some (k - 48)
      else if 97 \<le> k \<and> k \<le> 102 then Some (k - 87)
      else if 65 \<le> k \<and> k \<le> 70 then Some (k - 55)
      else None)"

fun fromhex :: "string \<Rightarrow> error + byte list" where
  "fromhex [] = Inr []"
| "fromhex [c] = (if isspace c then Inr [] else Inl ValueError)"
| "fromhex (c # d # cs) =
     (if isspace c then fromhex (d # cs)
      else case (hexval c, hexval d) of
        (Some h, Some l) \<Rightarrow>
          (case fromhex cs of
             Inl e \<Rightarrow> Inl e
           | Inr bs \<Rightarrow> Inr (word_of_nat (16 * h + l) # bs))
      | _ \<Rightarrow> Inl ValueError)"

text \<open>\<^verbatim>\<open>s.encode("utf-8")\<close> for code points below 256: one byte below 128, two above.\<close>

definition utf8_char :: "char \<Rightarrow> byte list" where
  "utf8_char c =
     (let k = (of_char c :: nat) in
      if k < 128 then [word_of_nat k]
      else [word_of_nat (192 + k div 64), word_of_nat (128 + k mod 64)])"

definition encode_utf8 :: "string \<Rightarrow> byte list" where
  "encode_utf8 s = concat (map utf8_char s)"

definition startswith :: "string \<Rightarrow> string \<Rightarrow> bool" where
  "startswith s p = (take (length p) s = p)"

text \<open>Lines 21--25 of \<^verbatim>\<open>TxOut.serialize\<close>: the bytes of \<^verbatim>\<open>pk_script\<close>.\<close>

definition script_bytes :: "string \<Rightarrow> error + byte list" where
  "script_bytes pk =
     (if startswith pk ''0x'' \<or> startswith pk ''0X'' then fromhex (drop 2 pk)
      else Inr (encode_utf8 pk))"

section \<open>TxOut\<close>

record TxOut =
  tx_value :: int
  pk_script :: string
  cached :: bool

text \<open>
  The packing loop of \<^verbatim>\<open>TxOut.serialize\<close> (lines 27--48).  It runs over the remaining
  bytes and carries \<^verbatim>\<open>sub_data\<close>, \<^verbatim>\<open>pending_word\<close> and \<^verbatim>\<open>pending_word_len\<close>.
\<close>

fun pack_loop :: "byte list \<Rightarrow> int list \<Rightarrow> int \<Rightarrow> int \<Rightarrow> error + (int list \<times> int \<times> int)" where
  "pack_loop [] sub_data pending_word pending_word_len =
     Inr (sub_data, pending_word, pending_word_len)"
| "pack_loop (b # bs) sub_data pending_word pending_word_len =
     (let byte = uint b in
      if \<not> (0 \<le> byte \<and> byte \<le> 255) then Inl ValueError
      else if pending_word_len = 0 then pack_loop bs sub_data byte 1
      else
        let new_pending = pending_word * 0x100 + byte in
        if pending_word_len < 31 - 1
        then pack_loop bs sub_data new_pending (pending_word_len + 1)
        else
          (case to_bytes_big new_pending 31 of
             Inl e \<Rightarrow> Inl e
           | Inr new_pending_bytes \<Rightarrow>
               pack_loop bs (sub_data @ [from_bytes_big new_pending_bytes]) 0 0))"

text \<open>\<^verbatim>\<open>TxOut.serialize\<close> as a whole.\<close>

definition serialize :: "TxOut \<Rightarrow> error + int list" where
  "serialize t =
     (let res = [tx_value t] in
      case script_bytes (pk_script t) of
        Inl e \<Rightarrow> Inl e
      | Inr byte_data \<Rightarrow>
          (case pack_loop byte_data [] 0 0 of
             Inl e \<Rightarrow> Inl e
           | Inr (sub_data, pending_word, pending_word_len) \<Rightarrow>
               let data = [int (length sub_data)] @ sub_data;
                   data = (if pending_word_len > 0 then data @ [pending_word] else data);
                   data = data @ [pending_word_len];
                   res = res @ data
               in Inr (res @ [if cached t then 1 else 0])))"

section \<open>OutPoint\<close>

record OutPoint =
  txid :: string
  vout :: int
  data :: TxOut
  block_height :: int
  block_time :: int
  block_hash :: string
  is_coinbase :: bool

text \<open>
  \<^verbatim>\<open>OutPoint.hash\<close>, lines 84--106: the list \<^verbatim>\<open>tab\<close> handed to
  \<^verbatim>\<open>poseidon_hash_many\<close>.  The exceptions come in the order of the source: the hex
  decoding of \<^verbatim>\<open>txid\<close>, then \<^verbatim>\<open>serialize\<close>, then the hex decoding of
  \<^verbatim>\<open>block_hash\<close>.
\<close>

definition hash_elements :: "OutPoint \<Rightarrow> error + int list" where
  "hash_elements p =
     (case fromhex (txid p) of
        Inl e \<Rightarrow> Inl e
      | Inr txid_bytes \<Rightarrow>
          let tab = [from_bytes_little (take 16 txid_bytes),
                     from_bytes_little (drop 16 txid_bytes)];
              tab = tab @ [vout p]
          in
          (case serialize (data p) of
             Inl e \<Rightarrow> Inl e
           | Inr es \<Rightarrow>
               let tab = tab @ es in
               (case fromhex (block_hash p) of
                  Inl e \<Rightarrow> Inl e
                | Inr hash_bytes \<Rightarrow>
                    let tab = tab @ [from_bytes_little (take 16 hash_bytes),
                                     from_bytes_little (drop 16 hash_bytes)];
                        tab = tab @ [block_height p];
                        tab = tab @ [block_time p];
                        tab = tab @ [if is_coinbase p then 1 else 0]
                    in Inr tab)))"

text \<open>
  \<^verbatim>\<open>poseidon_hash_many\<close> comes from the package \<^verbatim>\<open>poseidon_py\<close>; it is a parameter
  of the model, a function from the element list to one field element.
\<close>

definition hash :: "(int list \<Rightarrow> int) \<Rightarrow> OutPoint \<Rightarrow> error + int" where
  "hash poseidon_hash_many p =
     (case hash_elements p of
        Inl e \<Rightarrow> Inl e
      | Inr tab \<Rightarrow> Inr (poseidon_hash_many tab))"

section \<open>The accumulator interface\<close>

text \<open>
  The class \<^verbatim>\<open>Utreexo\<close> is imported from the module \<^verbatim>\<open>utreexo\<close>.  The script uses
  its constructor, its methods \<^verbatim>\<open>add\<close> and \<^verbatim>\<open>delete\<close>, and its attributes
  \<^verbatim>\<open>root_nodes\<close> and \<^verbatim>\<open>leaf_nodes\<close> (only through \<^verbatim>\<open>len\<close>).  The model takes
  them as a record of operations over an arbitrary accumulator state \<open>'a\<close>.  Both methods
  mutate the accumulator and may raise, so each returns the outcome together with the
  accumulator it leaves behind.  A node is known by its attribute \<^verbatim>\<open>val\<close>, a
  hexadecimal string with a two-character prefix.
\<close>

record Node =
  val :: string

record 'a Utreexo =
  utreexo_new :: 'a
  utreexo_add :: "int \<Rightarrow> 'a \<Rightarrow> (error + unit) \<times> 'a"
  utreexo_delete :: "int \<Rightarrow> 'a \<Rightarrow> (error + Node list \<times> int) \<times> 'a"
  root_nodes :: "'a \<Rightarrow> Node option list"
  leaf_nodes_len :: "'a \<Rightarrow> nat"

text \<open>\<^verbatim>\<open>format_node\<close> and \<^verbatim>\<open>format_root_node\<close>, lines 223--231.\<close>

definition format_node :: "Node \<Rightarrow> error + int" where
  "format_node node =
     (case fromhex (drop 2 (val node)) of
        Inl e \<Rightarrow> Inl e
      | Inr bs \<Rightarrow> Inr (from_bytes_big bs))"

record RootNode =
  variant_id :: int
  root_value :: int

definition format_root_node :: "Node option \<Rightarrow> error + RootNode option" where
  "format_root_node node =
     (case node of
        Some n \<Rightarrow>
          (case format_node n of
             Inl e \<Rightarrow> Inl e
           | Inr v \<Rightarrow> Inr (Some \<lparr>variant_id = 0, root_value = v\<rparr>))
      | None \<Rightarrow> Inr None)"

text \<open>\<^verbatim>\<open>list(map(f, xs))\<close> for an \<open>f\<close> that may raise: the first exception wins.\<close>

fun map_raise :: "('a \<Rightarrow> error + 'b) \<Rightarrow> 'a list \<Rightarrow> error + 'b list" where
  "map_raise f [] = Inr []"
| "map_raise f (x # xs) =
     (case f x of
        Inl e \<Rightarrow> Inl e
      | Inr y \<Rightarrow> (case map_raise f xs of Inl e \<Rightarrow> Inl e | Inr ys \<Rightarrow> Inr (y # ys)))"

section \<open>Block data\<close>

text \<open>
  The blocks are nested Python dictionaries.  The model gives them the fields the script
  reads: a missing key is outside the model.  A block's \<^verbatim>\<open>"data"\<close> is a dictionary
  from txid to transaction that the script only iterates, in insertion order: an
  association list.  The dictionary of a previous output has the fields of an
  \<^verbatim>\<open>OutPoint\<close>, with a nested dictionary that has those of a \<^verbatim>\<open>TxOut\<close>.
\<close>

record TxIn =
  previous_output :: OutPoint

record Tx =
  inputs :: "TxIn list"
  outputs :: "TxOut list"

record Block =
  b_hash :: string
  b_height :: int
  b_time :: int
  b_data :: "(string \<times> Tx) list"

section \<open>UtreexoData\<close>

text \<open>
  The object state of \<^verbatim>\<open>UtreexoData\<close> is the accumulator \<^verbatim>\<open>self.utreexo\<close>.  The model
  adds a log of the accumulator calls made so far, in order: for each call the
  \<^verbatim>\<open>OutPoint\<close> whose hash was passed, the leaf, and the outcome.  The log is never read
  by the modelled code.
\<close>

datatype call =
    Delete OutPoint int "error + Node list \<times> int"
  | Add OutPoint int "error + unit"

record 'a UtreexoData =
  utreexo :: 'a
  calls :: "call list"

definition UtreexoData_init :: "'a Utreexo \<Rightarrow> 'a UtreexoData" where
  "UtreexoData_init ops = \<lparr>utreexo = utreexo_new ops, calls = []\<rparr>"

record Snapshot =
  roots :: "RootNode option list"
  num_leaves :: int

definition snapshot_state :: "'a Utreexo \<Rightarrow> 'a UtreexoData \<Rightarrow> error + Snapshot" where
  "snapshot_state ops u =
     (case map_raise format_root_node (root_nodes ops (utreexo u)) of
        Inl e \<Rightarrow> Inl e
      | Inr rs \<Rightarrow> Inr \<lparr>roots = rs, num_leaves = int (leaf_nodes_len ops (utreexo u))\<rparr>)"

record ProofEntry =
  proof_nodes :: "int list"
  leaf_index :: int

text \<open>The dictionary appended at lines 185--187, for the pair \<^verbatim>\<open>delete\<close> returned.\<close>

definition proof_entry :: "Node list \<times> int \<Rightarrow> error + ProofEntry" where
  "proof_entry r =
     (case map_raise format_node (fst r) of
        Inl e \<Rightarrow> Inl e
      | Inr ns \<Rightarrow> Inr \<lparr>proof_nodes = ns, leaf_index = snd r\<rparr>)"

text \<open>
  \<^verbatim>\<open>handle_txin\<close>, lines 160--189: the loop over the inputs, carrying \<^verbatim>\<open>proofs\<close>.
\<close>

fun handle_txin_loop ::
  "'a Utreexo \<Rightarrow> (int list \<Rightarrow> int) \<Rightarrow> TxIn list \<Rightarrow> ProofEntry list \<Rightarrow> 'a UtreexoData
   \<Rightarrow> (error + ProofEntry list) \<times> 'a UtreexoData" where
  "handle_txin_loop ops H [] proofs u = (Inr proofs, u)"
| "handle_txin_loop ops H (input # rest) proofs u =
     (let outpoint = previous_output input in
      if cached (data outpoint) then handle_txin_loop ops H rest proofs u
      else
        let outpoint = \<lparr>txid = txid outpoint, vout = vout outpoint,
                        data = \<lparr>tx_value = tx_value (data outpoint),
                                pk_script = pk_script (data outpoint),
                                cached = cached (data outpoint)\<rparr>,
                        block_height = block_height outpoint,
                        block_time = block_time outpoint,
                        block_hash = block_hash outpoint,
                        is_coinbase = is_coinbase outpoint\<rparr>
        in
        (case hash H outpoint of
           Inl e \<Rightarrow> (Inl e, u)
         | Inr leaf \<Rightarrow>
             let (r, a) = utreexo_delete ops leaf (utreexo u);
                 u' = u\<lparr>utreexo := a, calls := calls u @ [Delete outpoint leaf r]\<rparr>
             in
             (case r of
                Inl e \<Rightarrow> (Inl e, u')
              | Inr pl \<Rightarrow>
                  (case proof_entry pl of
                     Inl e \<Rightarrow> (Inl e, u')
                   | Inr entry \<Rightarrow> handle_txin_loop ops H rest (proofs @ [entry]) u'))))"

definition handle_txin ::
  "'a Utreexo \<Rightarrow> (int list \<Rightarrow> int) \<Rightarrow> TxIn list \<Rightarrow> 'a UtreexoData
   \<Rightarrow> (error + ProofEntry list) \<times> 'a UtreexoData" where
  "handle_txin ops H ins u = handle_txin_loop ops H ins [] u"

text \<open>
  \<^verbatim>\<open>handle_txout\<close>, lines 191--220: the loop over \<^verbatim>\<open>enumerate(outputs)\<close>, carrying
  the index \<open>i\<close>.
\<close>

fun handle_txout_loop ::
  "'a Utreexo \<Rightarrow> (int list \<Rightarrow> int) \<Rightarrow> TxOut list \<Rightarrow> int \<Rightarrow> string \<Rightarrow> int \<Rightarrow> int \<Rightarrow> string
   \<Rightarrow> bool \<Rightarrow> 'a UtreexoData \<Rightarrow> (error + unit) \<times> 'a UtreexoData" where
  "handle_txout_loop ops H [] i bhash bheight btime tid cb u = (Inr (), u)"
| "handle_txout_loop ops H (output # rest) i bhash bheight btime tid cb u =
     (if cached output then handle_txout_loop ops H rest (i + 1) bhash bheight btime tid cb u
      else
        let new_outpoint = \<lparr>txid = tid, vout = i,
                            data = \<lparr>tx_value = tx_value output,
                                    pk_script = pk_script output,
                                    cached = cached output\<rparr>,
                            block_height = bheight,
                            block_time = btime,
                            block_hash = bhash,
                            is_coinbase = cb\<rparr>
        in
        (case hash H new_outpoint of
           Inl e \<Rightarrow> (Inl e, u)
         | Inr leaf \<Rightarrow>
             let (r, a) = utreexo_add ops leaf (utreexo u);
                 u' = u\<lparr>utreexo := a, calls := calls u @ [Add new_outpoint leaf r]\<rparr>
             in
             (case r of
                Inl e \<Rightarrow> (Inl e, u')
              | Inr _ \<Rightarrow>
                  handle_txout_loop ops H rest (i + 1) bhash bheight btime tid cb u')))"

definition handle_txout ::
  "'a Utreexo \<Rightarrow> (int list \<Rightarrow> int) \<Rightarrow> TxOut list \<Rightarrow> string \<Rightarrow> int \<Rightarrow> int \<Rightarrow> string
   \<Rightarrow> bool \<Rightarrow> 'a UtreexoData \<Rightarrow> (error + unit) \<times> 'a UtreexoData" where
  "handle_txout ops H outs bhash bheight btime tid cb u =
     handle_txout_loop ops H outs 0 bhash bheight btime tid cb u"

text \<open>
  \<^verbatim>\<open>apply_blocks\<close>, lines 132--158.  \<open>remove_stxos\<close> is the first inner loop (lines
  140--146) and \<open>add_utxos\<close> the second (lines 149--157), each over
  \<^verbatim>\<open>enumerate(block["data"].items())\<close> with its index \<open>i\<close>; \<open>apply_block\<close> is the
  body of the outer loop for one block, and \<open>blocks_loop\<close> the outer loop, carrying
  \<^verbatim>\<open>state\<close> and \<^verbatim>\<open>proofs\<close>.  The empty dictionary \<^verbatim>\<open>state = {}\<close> is \<open>None\<close>.
\<close>

fun remove_stxos ::
  "'a Utreexo \<Rightarrow> (int list \<Rightarrow> int) \<Rightarrow> int \<Rightarrow> int \<Rightarrow> (string \<times> Tx) list \<Rightarrow> int
   \<Rightarrow> ProofEntry list \<Rightarrow> 'a UtreexoData \<Rightarrow> (error + ProofEntry list) \<times> 'a UtreexoData" where
  "remove_stxos ops H len_blocks block_idx [] i proofs u = (Inr proofs, u)"
| "remove_stxos ops H len_blocks block_idx ((tid, tx) # rest) i proofs u =
     (if i \<noteq> 0 then
        (case handle_txin ops H (inputs tx) u of
           (Inl e, u') \<Rightarrow> (Inl e, u')
         | (Inr inc_proofs, u') \<Rightarrow>
             remove_stxos ops H len_blocks block_idx rest (i + 1)
               (if block_idx = len_blocks - 1 then proofs @ inc_proofs else proofs) u')
      else remove_stxos ops H len_blocks block_idx rest (i + 1) proofs u)"

fun add_utxos ::
  "'a Utreexo \<Rightarrow> (int list \<Rightarrow> int) \<Rightarrow> Block \<Rightarrow> (string \<times> Tx) list \<Rightarrow> int
   \<Rightarrow> 'a UtreexoData \<Rightarrow> (error + unit) \<times> 'a UtreexoData" where
  "add_utxos ops H block [] i u = (Inr (), u)"
| "add_utxos ops H block ((tid, tx) # rest) i u =
     (case handle_txout ops H (outputs tx) (b_hash block) (b_height block) (b_time block)
             tid (i = 0) u of
        (Inl e, u') \<Rightarrow> (Inl e, u')
      | (Inr _, u') \<Rightarrow> add_utxos ops H block rest (i + 1) u')"

definition apply_block ::
  "'a Utreexo \<Rightarrow> (int list \<Rightarrow> int) \<Rightarrow> int \<Rightarrow> int \<Rightarrow> Block
   \<Rightarrow> Snapshot option \<times> ProofEntry list \<Rightarrow> 'a UtreexoData
   \<Rightarrow> (error + Snapshot option \<times> ProofEntry list) \<times> 'a UtreexoData" where
  "apply_block ops H len_blocks block_idx block sp u =
     (case (if block_idx = len_blocks - 1
            then (case snapshot_state ops u of Inl e \<Rightarrow> Inl e | Inr s \<Rightarrow> Inr (Some s))
            else Inr (fst sp)) of
        Inl e \<Rightarrow> (Inl e, u)
      | Inr state \<Rightarrow>
          (case remove_stxos ops H len_blocks block_idx (b_data block) 0 (snd sp) u of
             (Inl e, u1) \<Rightarrow> (Inl e, u1)
           | (Inr proofs, u1) \<Rightarrow>
               (case add_utxos ops H block (b_data block) 0 u1 of
                  (Inl e, u2) \<Rightarrow> (Inl e, u2)
                | (Inr _, u2) \<Rightarrow> (Inr (state, proofs), u2))))"

fun blocks_loop ::
  "'a Utreexo \<Rightarrow> (int list \<Rightarrow> int) \<Rightarrow> int \<Rightarrow> int \<Rightarrow> Block list
   \<Rightarrow> Snapshot option \<times> ProofEntry list \<Rightarrow> 'a UtreexoData
   \<Rightarrow> (error + Snapshot option \<times> ProofEntry list) \<times> 'a UtreexoData" where
  "blocks_loop ops H len_blocks block_idx [] sp u = (Inr sp, u)"
| "blocks_loop ops H len_blocks block_idx (block # rest) sp u =
     (case apply_block ops H len_blocks block_idx block sp u of
        (Inl e, u') \<Rightarrow> (Inl e, u')
      | (Inr sp', u') \<Rightarrow> blocks_loop ops H len_blocks (block_idx + 1) rest sp' u')"

record Result =
  state :: "Snapshot option"
  proofs :: "ProofEntry list"
  expected :: Snapshot

definition apply_blocks ::
  "'a Utreexo \<Rightarrow> (int list \<Rightarrow> int) \<Rightarrow> Block list \<Rightarrow> 'a UtreexoData
   \<Rightarrow> (error + Result) \<times> 'a UtreexoData" where
  "apply_blocks ops H blocks u =
     (case blocks_loop ops H (int (length blocks)) 0 blocks (None, []) u of
        (Inl e, u') \<Rightarrow> (Inl e, u')
      | (Inr sp, u') \<Rightarrow>
          (case snapshot_state ops u' of
             Inl e \<Rightarrow> (Inl e, u')
           | Inr s \<Rightarrow> (Inr \<lparr>state = fst sp, proofs = snd sp, expected = s\<rparr>, u')))"

section \<open>Reference notions for the packing\<close>

text \<open>
  The consecutive full groups of \<open>n\<close> elements of a list, and what is left after them.
  These say what the packing loop is meant to produce; they are not part of the script.
\<close>

function full_chunks :: "nat \<Rightarrow> 'a list \<Rightarrow> 'a list list" where
  "full_chunks n xs =
     (if n = 0 \<or> length xs < n then [] else take n xs # full_chunks n (drop n xs))"
  by pat_completeness auto
termination
  by (relation "measure (\<lambda>(n, xs). length xs)") auto

function tail_chunk :: "nat \<Rightarrow> 'a list \<Rightarrow> 'a list" where
  "tail_chunk n xs =
     (if n = 0 \<or> length xs < n then xs else tail_chunk n (drop n xs))"
  by pat_completeness auto
termination
  by (relation "measure (\<lambda>(n, xs). length xs)") auto

declare full_chunks.simps [simp del] tail_chunk.simps [simp del]

text \<open>
  Reassembling a packing: every completed word written back on 31 bytes, the tail word on
  \<open>tail_length\<close> bytes, all concatenated in order.
\<close>

definition reassemble :: "int list \<Rightarrow> int \<Rightarrow> int \<Rightarrow> byte list" where
  "reassemble words tail_word tail_length =
     concat (map (\<lambda>w. digits_big w 31) words) @ digits_big tail_word (nat tail_length)"

text \<open>
  The 16 bytes of \<open>bs\<close> from position \<open>off\<close> on, read as a little-endian integer: byte
  \<open>off + i\<close> has weight \<open>256 ^ i\<close>.
\<close>

definition le128 :: "byte list \<Rightarrow> nat \<Rightarrow> int" where
  "le128 bs off = sum_list (map (\<lambda>i. uint (bs ! (off + i)) * 256 ^ i) [0..<16])"

section \<open>Reference notions for the replay\<close>

text \<open>
  Reading the call log: which kind a call is, the outpoint whose hash was passed, the leaf,
  and the outcomes of the \<^verbatim>\<open>delete\<close> calls of a log in order.  \<open>result_entry\<close> is the
  proof record the script builds from one such outcome.
\<close>

fun is_delete :: "call \<Rightarrow> bool" where
  "is_delete (Delete p leaf r) = True"
| "is_delete (Add p leaf r) = False"


fun call_outpoint :: "call \<Rightarrow> OutPoint" where
  "call_outpoint (Delete p leaf r) = p"
| "call_outpoint (Add p leaf r) = p"

fun call_leaf :: "call \<Rightarrow> int" where
  "call_leaf (Delete p leaf r) = leaf"
| "call_leaf (Add p leaf r) = leaf"

fun delete_results :: "call list \<Rightarrow> (error + Node list \<times> int) list" where
  "delete_results [] = []"
| "delete_results (Delete p leaf r # cs) = r # delete_results cs"
| "delete_results (Add p leaf r # cs) = delete_results cs"

definition result_entry :: "error + Node list \<times> int \<Rightarrow> error + ProofEntry" where
  "result_entry r = (case r of Inl e \<Rightarrow> Inl e | Inr pl \<Rightarrow> proof_entry pl)"

text \<open>
  A call whose leaf is the hash of its outpoint, for an output that is not cached; and the
  same with the compressed sequence spelled out: the \<^verbatim>\<open>serialize()\<close> segment sits after
  the first three elements and ends with the cached flag 0, and the sequence itself ends
  with the coinbase flag.
\<close>

definition uncached_call :: "(int list \<Rightarrow> int) \<Rightarrow> call \<Rightarrow> bool" where
  "uncached_call H c =
     (\<not> cached (data (call_outpoint c)) \<and> hash H (call_outpoint c) = Inr (call_leaf c))"

definition uncached_leaf :: "(int list \<Rightarrow> int) \<Rightarrow> call \<Rightarrow> bool" where
  "uncached_leaf H c =
     (let p = call_outpoint c in
      \<not> cached (data p) \<and>
      (case hash_elements p of
         Inl e \<Rightarrow> False
       | Inr tab \<Rightarrow>
           call_leaf c = H tab \<and>
           (case serialize (data p) of
              Inl e \<Rightarrow> False
            | Inr es \<Rightarrow>
                take (length es) (drop 3 tab) = es \<and> last es = 0 \<and>
                last tab = (if is_coinbase p then 1 else 0))))"

text \<open>
  What a removal returned, and what a proof record holds, put side by side.  The value
  of a node is the big-endian integer of the bytes its \<^verbatim>\<open>val\<close> spells in hexadecimal
  after the two-character prefix, when it spells bytes.  \<open>removal_record\<close> is the proof
  of a removal as the values of its nodes, with the position returned; \<open>entry_record\<close>
  is the same reading of an entry of the proof list.
\<close>

definition node_int :: "Node \<Rightarrow> int option" where
  "node_int node =
     (case fromhex (drop 2 (val node)) of Inl e \<Rightarrow> None | Inr bs \<Rightarrow> Some (from_bytes_big bs))"

fun removal_record :: "error + Node list \<times> int \<Rightarrow> (int option list \<times> int) option" where
  "removal_record (Inl e) = None"
| "removal_record (Inr (nodes, idx)) = Some (map node_int nodes, idx)"

definition entry_record :: "ProofEntry \<Rightarrow> (int option list \<times> int) option" where
  "entry_record entry = Some (map Some (proof_nodes entry), leaf_index entry)"

text \<open>
  A snapshot read off the accumulator: one entry for each of its root nodes in order, null
  for an absent root and the variant 0 with the value of the node for a present one, and
  its number of leaves.
\<close>

fun root_record :: "Node option \<Rightarrow> RootNode option option" where
  "root_record None = Some None"
| "root_record (Some node) =
     (case node_int node of
        None \<Rightarrow> None
      | Some v \<Rightarrow> Some (Some \<lparr>variant_id = 0, root_value = v\<rparr>))"

definition is_snapshot :: "'a Utreexo \<Rightarrow> 'a UtreexoData \<Rightarrow> Snapshot \<Rightarrow> bool" where
  "is_snapshot ops u s =
     (map Some (roots s) = map root_record (root_nodes ops (utreexo u)) \<and>
      num_leaves s = int (leaf_nodes_len ops (utreexo u)))"

text \<open>
  A block all of whose referenced outputs and outputs are cached; and a block with the
  inputs of its first transaction replaced.
\<close>

definition all_cached :: "Block \<Rightarrow> bool" where
  "all_cached block =
     list_all (\<lambda>(tid, tx).
        list_all (\<lambda>input. cached (data (previous_output input))) (inputs tx) \<and>
        list_all cached (outputs tx)) (b_data block)"

fun with_first_inputs :: "TxIn list \<Rightarrow> (string \<times> Tx) list \<Rightarrow> (string \<times> Tx) list" where
  "with_first_inputs ins [] = []"
| "with_first_inputs ins ((tid, tx) # rest) = (tid, tx\<lparr>inputs := ins\<rparr>) # rest"

definition with_coinbase_inputs :: "(Block \<Rightarrow> TxIn list) \<Rightarrow> Block \<Rightarrow> Block" where
  "with_coinbase_inputs g block = block\<lparr>b_data := with_first_inputs (g block) (b_data block)\<rparr>"




definition created_outpoint :: "Block \<Rightarrow> nat \<Rightarrow> nat \<Rightarrow> OutPoint" where
  "created_outpoint block j m =
     \<lparr>txid = fst (b_data block ! j), vout = int m,
      data = outputs (snd (b_data block ! j)) ! m,
      block_height = b_height block, block_time = b_time block,
      block_hash = b_hash block, is_coinbase = (j = 0)\<rparr>"


text \<open>
  What the log lemmas below establish for the loops: the calls appended to the log, and
  the proofs and the snapshot carried on success.
\<close>

definition txin_post ::
  "(int list \<Rightarrow> int) \<Rightarrow> ProofEntry list \<Rightarrow> 'a UtreexoData
   \<Rightarrow> (error + ProofEntry list) \<times> 'a UtreexoData \<Rightarrow> call list \<Rightarrow> bool" where
  "txin_post H ps u res ds =
     (calls (snd res) = calls u @ ds \<and> list_all is_delete ds \<and> list_all (uncached_call H) ds \<and>
      (case fst res of
         Inl e \<Rightarrow> True
       | Inr ps' \<Rightarrow> map Inr ps' = map Inr ps @ map result_entry (delete_results ds)))"

definition txout_post ::
  "(int list \<Rightarrow> int) \<Rightarrow> 'a UtreexoData \<Rightarrow> (error + unit) \<times> 'a UtreexoData \<Rightarrow> call list \<Rightarrow> bool" where
  "txout_post H u res as =
     (calls (snd res) = calls u @ as \<and> list_all (\<lambda>c. \<not> is_delete c) as \<and>
      list_all (uncached_call H) as)"

definition removal_post ::
  "(int list \<Rightarrow> int) \<Rightarrow> bool \<Rightarrow> ProofEntry list \<Rightarrow> 'a UtreexoData
   \<Rightarrow> (error + ProofEntry list) \<times> 'a UtreexoData \<Rightarrow> call list \<Rightarrow> bool" where
  "removal_post H keep ps u res ds =
     (calls (snd res) = calls u @ ds \<and> list_all is_delete ds \<and> list_all (uncached_call H) ds \<and>
      (case fst res of
         Inl e \<Rightarrow> True
       | Inr ps' \<Rightarrow>
           map Inr ps' = map Inr ps @ (if keep then map result_entry (delete_results ds) else [])))"

definition block_post ::
  "'a Utreexo \<Rightarrow> (int list \<Rightarrow> int) \<Rightarrow> bool \<Rightarrow> Snapshot option \<times> ProofEntry list \<Rightarrow> 'a UtreexoData
   \<Rightarrow> (error + Snapshot option \<times> ProofEntry list) \<times> 'a UtreexoData
   \<Rightarrow> call list \<Rightarrow> call list \<Rightarrow> bool" where
  "block_post ops H is_last sp u res ds as =
     (calls (snd res) = calls u @ ds @ as \<and>
      list_all is_delete ds \<and> list_all (\<lambda>c. \<not> is_delete c) as \<and>
      list_all (uncached_call H) (ds @ as) \<and>
      (case fst res of
         Inl e \<Rightarrow> True
       | Inr sp' \<Rightarrow>
           map Inr (snd sp') =
             map Inr (snd sp) @ (if is_last then map result_entry (delete_results ds) else []) \<and>
           (if is_last then (case snapshot_state ops u of Inl e \<Rightarrow> False | Inr s \<Rightarrow> fst sp' = Some s)
            else fst sp' = fst sp)))"

section \<open>Example data\<close>

text \<open>An outpoint with 32-byte hashes, a script of five zero bytes and the coinbase flag.\<close>

definition example_outpoint :: OutPoint where
  "example_outpoint =
     \<lparr>txid = ''0100000000000000000000000000000002000000000000000000000000000000'',
      vout = 7,
      data = \<lparr>tx_value = 5000000000, pk_script = ''0x0000000000'', cached = False\<rparr>,
      block_height = 100, block_time = 200,
      block_hash = ''0300000000000000000000000000000000040000000000000000000000000000'',
      is_coinbase = True\<rparr>"

text \<open>
  Modelled from the spec: an accumulator in the sense of section 6 of the specification,
  kept as the list of its leaves.  \<^verbatim>\<open>add\<close> appends the leaf; \<^verbatim>\<open>delete\<close> raises the
  structural inconsistency for a leaf that is not in the list, and otherwise removes it and
  returns an empty proof with the position of the leaf.  It has no root nodes.
\<close>

definition list_utreexo :: "int list Utreexo" where
  "list_utreexo =
     \<lparr>utreexo_new = [],
      utreexo_add = (\<lambda>leaf a. (Inr (), a @ [leaf])),
      utreexo_delete = (\<lambda>leaf a.
         if leaf \<in> set a
         then (Inr ([], int (length (takeWhile (\<lambda>x. x \<noteq> leaf) a))), remove1 leaf a)
         else (Inl StructuralInconsistency, a)),
      root_nodes = (\<lambda>a. []),
      leaf_nodes_len = length\<rparr>"

text \<open>
  Blocks over one output of 5000000000 with a script of five zero bytes: one that creates
  it in its coinbase transaction, one that spends it, one that does both, and one whose
  items are all cached.  \<open>example_leaf\<close> is the leaf of the created output when the
  compress function is the sum.
\<close>

definition example_output :: TxOut where
  "example_output = \<lparr>tx_value = 5000000000, pk_script = ''0x0000000000'', cached = False\<rparr>"

definition example_txid :: "nat \<Rightarrow> string" where
  "example_txid k = concat (replicate 31 ''00'') @ [CHR ''0'', ''0123456789'' ! k]"

definition example_block_hash :: string where
  "example_block_hash = concat (replicate 32 ''ab'')"

definition example_spend :: TxIn where
  "example_spend =
     \<lparr>previous_output =
        \<lparr>txid = example_txid 1, vout = 0, data = example_output,
         block_height = 1, block_time = 10, block_hash = example_block_hash,
         is_coinbase = True\<rparr>\<rparr>"

definition example_block_create :: Block where
  "example_block_create =
     \<lparr>b_hash = example_block_hash, b_height = 1, b_time = 10,
      b_data = [(example_txid 1, \<lparr>inputs = [], outputs = [example_output]\<rparr>)]\<rparr>"

definition example_block_spend :: Block where
  "example_block_spend =
     \<lparr>b_hash = concat (replicate 32 ''cd''), b_height = 2, b_time = 20,
      b_data = [(example_txid 2, \<lparr>inputs = [], outputs = []\<rparr>),
                (example_txid 3, \<lparr>inputs = [example_spend], outputs = []\<rparr>)]\<rparr>"


definition example_block_cached :: Block where
  "example_block_cached =
     \<lparr>b_hash = example_block_hash, b_height = 1, b_time = 10,
      b_data = [(example_txid 1, \<lparr>inputs = [], outputs = [example_output\<lparr>cached := True\<rparr>]\<rparr>),
                (example_txid 3,
                 \<lparr>inputs = [\<lparr>previous_output =
                              (previous_output example_spend)\<lparr>data := example_output\<lparr>cached := True\<rparr>\<rparr>\<rparr>],
                  outputs = [example_output\<lparr>cached := True\<rparr>]\<rparr>)]\<rparr>"

definition example_leaf :: int where
  "example_leaf = 457707931866220031576723868797298887015"

text \<open>
  Modelled from the spec: a second accumulator in the sense of section 6 of the
  specification, again the list of its leaves, that hands out nodes.  \<^verbatim>\<open>delete\<close> of a
  leaf at position \<open>i\<close> among \<open>n\<close> leaves returns a proof of two nodes, with the values
  \<open>n\<close> and \<open>i\<close>, and the position \<open>i\<close>; there is an absent root and a root whose value
  is the number of leaves.
\<close>

definition hex_byte :: "nat \<Rightarrow> string" where
  "hex_byte k =
     ''0x'' @ [''0123456789abcdef'' ! (k div 16 mod 16), ''0123456789abcdef'' ! (k mod 16)]"

definition node_utreexo :: "int list Utreexo" where
  "node_utreexo =
     \<lparr>utreexo_new = [],
      utreexo_add = (\<lambda>leaf a. (Inr (), a @ [leaf])),
      utreexo_delete = (\<lambda>leaf a.
         if leaf \<in> set a
         then (let i = length (takeWhile (\<lambda>x. x \<noteq> leaf) a)
               in (Inr ([\<lparr>val = hex_byte (length a)\<rparr>, \<lparr>val = hex_byte i\<rparr>], int i),
                   remove1 leaf a))
         else (Inl StructuralInconsistency, a)),
      root_nodes = (\<lambda>a. [None, Some \<lparr>val = hex_byte (length a)\<rparr>]),
      leaf_nodes_len = length\<rparr>"

text \<open>
  A block that creates three outputs in its coinbase transaction, a block that spends the
  first of them, and a block where one transaction spends the third and the next one the
  second; \<open>example_result_three\<close> is what the script returns for the three in this order.
  And a block that creates the example output and spends it in a transaction whose first
  input has a txid of three hexadecimal digits.
\<close>

definition example_block_three :: Block where
  "example_block_three =
     \<lparr>b_hash = example_block_hash, b_height = 1, b_time = 10,
      b_data = [(example_txid 1,
                 \<lparr>inputs = [],
                  outputs = [example_output\<lparr>tx_value := 1\<rparr>, example_output\<lparr>tx_value := 2\<rparr>,
                             example_output\<lparr>tx_value := 3\<rparr>]\<rparr>)]\<rparr>"

definition example_spend_of :: "nat \<Rightarrow> TxIn" where
  "example_spend_of m = \<lparr>previous_output = created_outpoint example_block_three 0 m\<rparr>"

definition example_block_spend_one :: Block where
  "example_block_spend_one =
     \<lparr>b_hash = concat (replicate 32 ''cd''), b_height = 2, b_time = 20,
      b_data = [(example_txid 2, \<lparr>inputs = [], outputs = []\<rparr>),
                (example_txid 3, \<lparr>inputs = [example_spend_of 0], outputs = []\<rparr>)]\<rparr>"

definition example_block_spend_two :: Block where
  "example_block_spend_two =
     \<lparr>b_hash = concat (replicate 32 ''ef''), b_height = 3, b_time = 30,
      b_data = [(example_txid 4, \<lparr>inputs = [], outputs = []\<rparr>),
                (example_txid 5, \<lparr>inputs = [example_spend_of 2], outputs = []\<rparr>),
                (example_txid 6, \<lparr>inputs = [example_spend_of 1], outputs = []\<rparr>)]\<rparr>"

definition example_result_three :: Result where
  "example_result_three =
     \<lparr>state = Some \<lparr>roots = [None, Some \<lparr>variant_id = 0, root_value = 2\<rparr>], num_leaves = 2\<rparr>,
      proofs = [\<lparr>proof_nodes = [2, 1], leaf_index = 1\<rparr>, \<lparr>proof_nodes = [1, 0], leaf_index = 0\<rparr>],
      expected = \<lparr>roots = [None, Some \<lparr>variant_id = 0, root_value = 0\<rparr>], num_leaves = 0\<rparr>\<rparr>"


section \<open>Properties of the byte conversions\<close>

lemma from_bytes_big_Nil: "from_bytes_big [] = 0"
  by (simp add: from_bytes_big_def)

lemma from_bytes_big_snoc:
  "from_bytes_big (xs @ [b]) = from_bytes_big xs * 256 + uint b"
  by (simp add: from_bytes_big_def)

lemma uint_byte_bound: "uint (b :: byte) < 256"
  using uint_lt2p [of b] by simp

lemma from_bytes_big_range:
  "0 \<le> from_bytes_big xs \<and> from_bytes_big xs < 256 ^ length xs"
proof (induction xs rule: rev_induct)
  case Nil
  show ?case by (simp add: from_bytes_big_Nil)
next
  case (snoc b xs)
  have "uint b < 256" by (rule uint_byte_bound)
  moreover have "0 \<le> uint b" by simp
  ultimately show ?case using snoc by (simp add: from_bytes_big_snoc)
qed

lemma digits_little_from_bytes_big:
  "digits_little (from_bytes_big xs) (length xs) = rev xs"
proof (induction xs rule: rev_induct)
  case Nil
  show ?case by simp
next
  case (snoc b xs)
  have d: "(from_bytes_big xs * 256 + uint b) div 256 = from_bytes_big xs"
    using uint_byte_bound [of b] by simp
  have u: "uint b mod 256 = uint b"
    using uint_byte_bound [of b] by simp
  show ?case using snoc by (simp add: from_bytes_big_snoc u d)
qed

lemma digits_big_from_bytes_big:
  "length xs = n \<Longrightarrow> digits_big (from_bytes_big xs) n = xs"
  using digits_little_from_bytes_big [of xs] by (simp add: digits_big_def)

lemma to_bytes_big_from_bytes_big:
  "length xs = n \<Longrightarrow> to_bytes_big (from_bytes_big xs) n = Inr xs"
  using from_bytes_big_range [of xs]
  by (simp add: to_bytes_big_def digits_big_from_bytes_big)

section \<open>Properties of the chunking\<close>

lemma full_chunks_short: "length xs < n \<Longrightarrow> full_chunks n xs = []"
  by (simp add: full_chunks.simps)

lemma tail_chunk_short: "length xs < n \<Longrightarrow> tail_chunk n xs = xs"
  by (simp add: tail_chunk.simps)

lemma full_chunks_app:
  "0 < n \<Longrightarrow> length xs = n \<Longrightarrow> full_chunks n (xs @ ys) = xs # full_chunks n ys"
  by (subst full_chunks.simps) simp

lemma tail_chunk_app:
  "0 < n \<Longrightarrow> length xs = n \<Longrightarrow> tail_chunk n (xs @ ys) = tail_chunk n ys"
  by (subst tail_chunk.simps) simp

lemma full_chunks_length: "c \<in> set (full_chunks n xs) \<Longrightarrow> length c = n"
proof (induction n xs rule: full_chunks.induct)
  case (1 n xs)
  show ?case
  proof (cases "n = 0 \<or> length xs < n")
    case True
    with "1.prems" show ?thesis by (simp add: full_chunks.simps)
  next
    case False
    with "1.prems" have "c = take n xs \<or> c \<in> set (full_chunks n (drop n xs))"
      by (subst (asm) full_chunks.simps) simp
    with False "1.IH" show ?thesis by auto
  qed
qed

lemma tail_chunk_length: "0 < n \<Longrightarrow> length (tail_chunk n xs) < n"
proof (induction n xs rule: tail_chunk.induct)
  case (1 n xs)
  show ?case
  proof (cases "length xs < n")
    case True
    then show ?thesis by (simp add: tail_chunk_short)
  next
    case False
    with "1.prems" have "tail_chunk n xs = tail_chunk n (drop n xs)"
      by (subst tail_chunk.simps) simp
    with False "1.IH" "1.prems" show ?thesis by simp
  qed
qed

lemma chunks_concat: "concat (full_chunks n xs) @ tail_chunk n xs = xs"
proof (induction n xs rule: full_chunks.induct)
  case (1 n xs)
  show ?case
  proof (cases "n = 0 \<or> length xs < n")
    case True
    then show ?thesis by (simp add: full_chunks.simps tail_chunk.simps)
  next
    case False
    have f: "full_chunks n xs = take n xs # full_chunks n (drop n xs)"
      using False by (subst full_chunks.simps) simp
    have t: "tail_chunk n xs = tail_chunk n (drop n xs)"
      using False by (subst tail_chunk.simps) simp
    from "1.IH" False show ?thesis by (simp add: f t)
  qed
qed

section \<open>The packing loop\<close>

lemma pack_loop_pending:
  "length pend \<le> 30 \<Longrightarrow>
   pack_loop bs sub (from_bytes_big pend) (int (length pend)) =
     Inr (sub @ map from_bytes_big (full_chunks 31 (pend @ bs)),
          from_bytes_big (tail_chunk 31 (pend @ bs)),
          int (length (tail_chunk 31 (pend @ bs))))"
proof (induction bs arbitrary: sub pend)
  case Nil
  then show ?case by (simp add: full_chunks_short tail_chunk_short)
next
  case (Cons b bs)
  have ub: "uint b \<le> 255" using uint_byte_bound [of b] by simp
  consider (empty) "pend = []" | (grow) "pend \<noteq> []" "length pend < 30" | (flush) "length pend = 30"
    using Cons.prems by linarith
  then show ?case
  proof cases
    case empty
    have "from_bytes_big [b] = uint b" by (simp add: from_bytes_big_def)
    with Cons.IH [of "[b]" sub] empty ub show ?thesis by simp
  next
    case grow
    from Cons.IH [of "pend @ [b]" sub] grow ub show ?thesis
      by (simp add: from_bytes_big_snoc Let_def add.commute)
  next
    case flush
    have l: "length (pend @ [b]) = 31" using flush by simp
    have tb: "to_bytes_big (from_bytes_big pend * 256 + uint b) 31 = Inr (pend @ [b])"
      using to_bytes_big_from_bytes_big [OF l] by (simp add: from_bytes_big_snoc)
    have fc: "full_chunks 31 (pend @ b # bs) = (pend @ [b]) # full_chunks 31 bs"
      using full_chunks_app [of 31 "pend @ [b]" bs] l by simp
    have tc: "tail_chunk 31 (pend @ b # bs) = tail_chunk 31 bs"
      using tail_chunk_app [of 31 "pend @ [b]" bs] l by simp
    from Cons.IH [of "[]" "sub @ [from_bytes_big (pend @ [b])]"] flush ub show ?thesis
      by (simp add: tb fc tc from_bytes_big_Nil Let_def)
  qed
qed

lemma pack_loop_chunks:
  "pack_loop bs [] 0 0 =
     Inr (map from_bytes_big (full_chunks 31 bs),
          from_bytes_big (tail_chunk 31 bs),
          int (length (tail_chunk 31 bs)))"
  using pack_loop_pending [of "[]" bs "[]"] by (simp add: from_bytes_big_Nil)

section \<open>Claims about TxOut.serialize\<close>

text \<open>
  Claim C1, as the code has it.  The packing loop returns for every byte string, and every
  completed word it produces is a non-negative integer below \<open>2 ^ (31 * 8)\<close>: a word
  groups 31 bytes, the byte that triggers the flush being merged into the word that is
  flushed.  What stays pending at the end is at most 30 bytes long, so the tail word is
  below \<open>2 ^ (30 * 8)\<close> and the tail length lies between 0 and 30.
\<close>

theorem pack_words_bound:
  "(\<exists>r. pack_loop bs [] 0 0 = Inr r) \<and>
   (\<forall>sub_data pending_word pending_word_len.
      pack_loop bs [] 0 0 = Inr (sub_data, pending_word, pending_word_len) \<longrightarrow>
        (\<forall>w \<in> set sub_data. 0 \<le> w \<and> w < 2 ^ (31 * 8)) \<and>
        0 \<le> pending_word \<and> pending_word < 2 ^ (30 * 8) \<and>
        0 \<le> pending_word_len \<and> pending_word_len \<le> 30)"
proof -
  have w: "0 \<le> w \<and> w < 2 ^ (31 * 8)" if "w \<in> set (map from_bytes_big (full_chunks 31 bs))" for w
  proof -
    from that obtain c where c: "c \<in> set (full_chunks 31 bs)" and wc: "w = from_bytes_big c"
      by auto
    have "length c = 31" using c by (rule full_chunks_length)
    with from_bytes_big_range [of c] wc have "0 \<le> w \<and> w < 256 ^ 31" by simp
    moreover have "(256 :: int) ^ 31 = 2 ^ (31 * 8)" by simp
    ultimately show ?thesis by simp
  qed
  have tl: "length (tail_chunk 31 bs) < 31" by (rule tail_chunk_length) simp
  have "from_bytes_big (tail_chunk 31 bs) < 256 ^ length (tail_chunk 31 bs)"
    using from_bytes_big_range by blast
  also have "\<dots> \<le> (256 :: int) ^ 30"
    using tl by (intro power_increasing) simp_all
  also have "\<dots> = 2 ^ (30 * 8)" by simp
  finally have t: "from_bytes_big (tail_chunk 31 bs) < 2 ^ (30 * 8)" .
  have t0: "0 \<le> from_bytes_big (tail_chunk 31 bs)"
    using from_bytes_big_range by blast
  show ?thesis
    using w t t0 tl by (simp add: pack_loop_chunks)
qed

text \<open>
  The bound of C1 used on the 31 bytes \<open>01 00 \<dots> 00\<close>: the loop completes the single
  word \<open>2 ^ 240\<close>.
\<close>

theorem pack_words_bound_witness:
  "pack_loop (1 # replicate 30 0) [] 0 0 = Inr ([2 ^ 240], 0, 0) \<and>
   (2 :: int) ^ 240 \<in> set [2 ^ 240] \<and> (0 :: int) \<le> 2 ^ 240 \<and> (2 :: int) ^ 240 < 2 ^ (31 * 8)"
proof -
  have e: "pack_loop (1 # replicate 30 0) [] 0 0 = Inr ([2 ^ 240], 0, 0)"
    by code_simp
  have m: "(2 :: int) ^ 240 \<in> set [2 ^ 240]" by simp
  from pack_words_bound [of "1 # replicate 30 0"] e m
  have "(0 :: int) \<le> 2 ^ 240 \<and> (2 :: int) ^ 240 < 2 ^ (31 * 8)" by blast
  with e m show ?thesis by blast
qed

text \<open>
  Claim C1 as stated asks for every completed word to be below \<open>2 ^ (30 * 8)\<close>.  On the
  31 bytes \<open>01 00 \<dots> 00\<close> the loop completes the word \<open>2 ^ (30 * 8)\<close> itself.
\<close>

theorem pack_words_30_bytes_counterexample:
  "pack_loop (1 # replicate 30 0) [] 0 0 = Inr ([2 ^ (30 * 8)], 0, 0) \<and>
   \<not> ((2 :: int) ^ (30 * 8) < 2 ^ (30 * 8))"
  by code_simp

text \<open>
  Claim C2.  \<^verbatim>\<open>serialize\<close> raises what the decoding of the script raises, and
  otherwise returns the value, the number of completed words, the completed words in
  order (the big-endian values of the consecutive 31-byte groups of the script), the tail
  word when the tail is not empty, the tail length, and the cached flag as 0 or 1; for an
  empty script (the empty text, or a bare hex prefix) that is \<open>[value, 0, 0, flag]\<close>.
\<close>

theorem serialize_layout:
  "serialize t =
     (case script_bytes (pk_script t) of
        Inl e \<Rightarrow> Inl e
      | Inr bs \<Rightarrow>
          Inr ([tx_value t, int (length (full_chunks 31 bs))]
               @ map from_bytes_big (full_chunks 31 bs)
               @ (if 0 < length (tail_chunk 31 bs) then [from_bytes_big (tail_chunk 31 bs)] else [])
               @ [int (length (tail_chunk 31 bs)), if cached t then 1 else 0]))
   \<and> serialize \<lparr>tx_value = v, pk_script = [], cached = c\<rparr> = Inr [v, 0, 0, if c then 1 else 0]
   \<and> serialize \<lparr>tx_value = v, pk_script = ''0x'', cached = c\<rparr> = Inr [v, 0, 0, if c then 1 else 0]"
proof (intro conjI)
  show "serialize t =
     (case script_bytes (pk_script t) of
        Inl e \<Rightarrow> Inl e
      | Inr bs \<Rightarrow>
          Inr ([tx_value t, int (length (full_chunks 31 bs))]
               @ map from_bytes_big (full_chunks 31 bs)
               @ (if 0 < length (tail_chunk 31 bs) then [from_bytes_big (tail_chunk 31 bs)] else [])
               @ [int (length (tail_chunk 31 bs)), if cached t then 1 else 0]))"
    by (cases "script_bytes (pk_script t)") (simp_all add: serialize_def pack_loop_chunks)
  have e: "script_bytes [] = Inr []"
    by (simp add: script_bytes_def startswith_def encode_utf8_def)
  have x: "script_bytes ''0x'' = Inr []"
    by (simp add: script_bytes_def startswith_def)
  show "serialize \<lparr>tx_value = v, pk_script = [], cached = c\<rparr> = Inr [v, 0, 0, if c then 1 else 0]"
    by (simp add: serialize_def e)
  show "serialize \<lparr>tx_value = v, pk_script = ''0x'', cached = c\<rparr> = Inr [v, 0, 0, if c then 1 else 0]"
    by (simp add: serialize_def x)
qed

text \<open>
  Claim C9.  For every byte string \<open>b\<close> the packing loop returns, and writing each
  completed word back on its 31 bytes and the tail word on \<open>tail_length\<close> bytes, then
  concatenating in output order, gives \<open>b\<close> back.
\<close>

theorem pack_roundtrip:
  "\<exists>ws tw tl. pack_loop b [] 0 0 = Inr (ws, tw, tl) \<and> reassemble ws tw tl = b"
proof -
  have "concat (map (\<lambda>w. digits_big w 31) (map from_bytes_big (full_chunks 31 b))) = concat (full_chunks 31 b)"
  proof -
    have "map (\<lambda>w. digits_big w 31) (map from_bytes_big (full_chunks 31 b)) = full_chunks 31 b"
      by (simp add: map_idI full_chunks_length digits_big_from_bytes_big)
    then show ?thesis by simp
  qed
  then have "reassemble (map from_bytes_big (full_chunks 31 b)) (from_bytes_big (tail_chunk 31 b))
          (int (length (tail_chunk 31 b))) = b"
    by (simp add: reassemble_def digits_big_from_bytes_big chunks_concat)
  then show ?thesis by (simp add: pack_loop_chunks)
qed

section \<open>Claims about OutPoint.hash\<close>

lemma from_bytes_little_sum:
  "from_bytes_little xs = sum_list (map (\<lambda>i. uint (xs ! i) * 256 ^ i) [0..<length xs])"
proof (induction xs)
  case Nil
  show ?case by simp
next
  case (Cons b bs)
  have "[0..<length (b # bs)] = 0 # map Suc [0..<length bs]"
    by (simp add: upt_conv_Cons map_Suc_upt del: upt_Suc)
  then have "sum_list (map (\<lambda>i. uint ((b # bs) ! i) * 256 ^ i) [0..<length (b # bs)])
      = uint b + sum_list (map (\<lambda>i. 256 * (uint (bs ! i) * 256 ^ i)) [0..<length bs])"
    by (simp add: comp_def mult.commute mult.left_commute)
  also have "\<dots> = uint b + 256 * sum_list (map (\<lambda>i. uint (bs ! i) * 256 ^ i) [0..<length bs])"
    by (simp add: sum_list_const_mult)
  finally show ?case using Cons by simp
qed

lemma le128_take:
  assumes "16 \<le> length bs"
  shows "from_bytes_little (take 16 bs) = le128 bs 0"
proof -
  have m: "map (\<lambda>i. uint (take 16 bs ! i) * 256 ^ i) [0..<16]
      = map (\<lambda>i. uint (bs ! i) * 256 ^ i) [0..<16]"
    by (rule map_cong) simp_all
  have l: "length (take 16 bs) = 16" using assms by simp
  show ?thesis
    unfolding from_bytes_little_sum le128_def l by (simp add: m)
qed

lemma le128_drop: "length bs = 32 \<Longrightarrow> from_bytes_little (drop 16 bs) = le128 bs 16"
  by (simp add: from_bytes_little_sum le128_def cong: map_cong)

text \<open>
  Claim C3.  For an outpoint whose txid and block hash decode to 32 bytes, the list passed
  to the compress function is: txid bytes 0..15 and bytes 16..31, each as a little-endian
  integer, then \<open>vout\<close>, then the whole \<^verbatim>\<open>serialize()\<close> sequence of the output in its
  own order, then block-hash bytes 0..15 and 16..31 as little-endian integers, the block
  height, the block time, and the coinbase flag as 0 or 1 (an exception of
  \<^verbatim>\<open>serialize\<close> is passed on).  The leaf is what the compress function returns on
  that list.
\<close>

theorem hash_sequence:
  assumes "fromhex (txid p) = Inr tb" and "length tb = 32"
    and "fromhex (block_hash p) = Inr hb" and "length hb = 32"
  shows "hash_elements p =
           (case serialize (data p) of
              Inl e \<Rightarrow> Inl e
            | Inr es \<Rightarrow>
                Inr ([le128 tb 0, le128 tb 16, vout p] @ es @
                     [le128 hb 0, le128 hb 16, block_height p, block_time p,
                      if is_coinbase p then 1 else 0]))
         \<and> hash H p = (case hash_elements p of Inl e \<Rightarrow> Inl e | Inr tab \<Rightarrow> Inr (H tab))"
  using assms
  by (simp add: hash_elements_def hash_def le128_take le128_drop split: sum.splits)

text \<open>The sequence of C3 for the example outpoint, with the sum as compress function.\<close>

theorem hash_sequence_witness:
  "fromhex (txid example_outpoint) = Inr (1 # replicate 15 0 @ 2 # replicate 15 0) \<and>
   length (1 # replicate 15 (0 :: byte) @ 2 # replicate 15 0) = 32 \<and>
   fromhex (block_hash example_outpoint) = Inr (3 # replicate 16 0 @ 4 # replicate 14 0) \<and>
   length (3 # replicate 16 (0 :: byte) @ 4 # replicate 14 0) = 32 \<and>
   hash_elements example_outpoint =
     Inr [1, 2, 7, 5000000000, 0, 0, 5, 0, 3, 1024, 100, 200, 1] \<and>
   hash sum_list example_outpoint = Inr 5000001343"
proof -
  let ?tb = "1 # replicate 15 (0 :: byte) @ 2 # replicate 15 0"
  let ?hb = "3 # replicate 16 (0 :: byte) @ 4 # replicate 14 0"
  have t: "fromhex (txid example_outpoint) = Inr ?tb"
    unfolding example_outpoint_def by code_simp
  have h: "fromhex (block_hash example_outpoint) = Inr ?hb"
    unfolding example_outpoint_def by code_simp
  have lt: "length ?tb = 32" by simp
  have lh: "length ?hb = 32" by simp
  have s: "serialize (data example_outpoint) = Inr [5000000000, 0, 0, 5, 0]"
    unfolding example_outpoint_def by code_simp
  have v: "le128 ?tb 0 = 1" "le128 ?tb 16 = 2" "le128 ?hb 0 = 3" "le128 ?hb 16 = 1024"
    by code_simp+
  have f: "vout example_outpoint = 7" "block_height example_outpoint = 100"
    "block_time example_outpoint = 200" "is_coinbase example_outpoint"
    by (simp_all add: example_outpoint_def)
  from hash_sequence [OF t lt h lh, of sum_list]
  have "hash_elements example_outpoint =
          Inr [1, 2, 7, 5000000000, 0, 0, 5, 0, 3, 1024, 100, 200, 1]
        \<and> hash sum_list example_outpoint = Inr 5000001343"
    by (simp add: s v f)
  with t h lt lh show ?thesis by blast
qed

section \<open>The replay: cached items, the outer loop, the coinbase inputs\<close>

lemma handle_txin_loop_cached:
  "list_all (\<lambda>input. cached (data (previous_output input))) ins \<Longrightarrow>
   handle_txin_loop ops H ins ps u = (Inr ps, u)"
  by (induction ins) simp_all

lemma handle_txout_loop_cached:
  "list_all cached outs \<Longrightarrow>
   handle_txout_loop ops H outs i bhash bheight btime tid cb u = (Inr (), u)"
  by (induction outs arbitrary: i) simp_all

lemma remove_stxos_cached:
  "list_all (\<lambda>(tid, tx). list_all (\<lambda>input. cached (data (previous_output input))) (inputs tx)) txs \<Longrightarrow>
   remove_stxos ops H n k txs i ps u = (Inr ps, u)"
  by (induction txs arbitrary: i) (auto simp: handle_txin_def handle_txin_loop_cached)

lemma add_utxos_cached:
  "list_all (\<lambda>(tid, tx). list_all cached (outputs tx)) txs \<Longrightarrow>
   add_utxos ops H block txs i u = (Inr (), u)"
  by (induction txs arbitrary: i) (auto simp: handle_txout_def handle_txout_loop_cached)

lemma all_cached_parts:
  assumes "all_cached block"
  shows "list_all (\<lambda>(tid, tx). list_all (\<lambda>input. cached (data (previous_output input))) (inputs tx)) (b_data block)"
    and "list_all (\<lambda>(tid, tx). list_all cached (outputs tx)) (b_data block)"
  using assms by (auto simp: all_cached_def list_all_iff)

lemma apply_block_cached:
  assumes "all_cached block"
  shows "apply_block ops H n k block sp u =
     (case (if k = n - 1
            then (case snapshot_state ops u of Inl e \<Rightarrow> Inl e | Inr s \<Rightarrow> Inr (Some s))
            else Inr (fst sp)) of
        Inl e \<Rightarrow> (Inl e, u)
      | Inr st \<Rightarrow> (Inr (st, snd sp), u))"
  using all_cached_parts [OF assms]
  by (simp add: apply_block_def remove_stxos_cached add_utxos_cached split: sum.splits)

lemma blocks_loop_append:
  "blocks_loop ops H n k (xs @ ys) sp u =
     (case blocks_loop ops H n k xs sp u of
        (Inl e, u') \<Rightarrow> (Inl e, u')
      | (Inr sp', u') \<Rightarrow> blocks_loop ops H n (k + int (length xs)) ys sp' u')"
proof (induction xs arbitrary: k sp u)
  case Nil
  show ?case by simp
next
  case (Cons x xs)
  show ?case
  proof (cases "apply_block ops H n k x sp u")
    case (Pair r u1)
    show ?thesis
    proof (cases r)
      case (Inl e)
      with Pair show ?thesis by simp
    next
      case (Inr sp1)
      have eq: "k + int (length (x # xs)) = k + 1 + int (length xs)" by simp
      from Inr Pair Cons.IH [of "k + 1" sp1 u1] show ?thesis
        unfolding eq by simp
    qed
  qed
qed

lemma remove_stxos_first:
  "remove_stxos ops H n k (with_first_inputs ins txs) 0 ps u = remove_stxos ops H n k txs 0 ps u"
  by (cases txs) auto

lemma add_utxos_block_fields:
  "b_hash b1 = b_hash b2 \<Longrightarrow> b_height b1 = b_height b2 \<Longrightarrow> b_time b1 = b_time b2 \<Longrightarrow>
   add_utxos ops H b1 txs i u = add_utxos ops H b2 txs i u"
  by (induction txs arbitrary: i u) (auto split: prod.splits sum.splits)

lemma add_utxos_first:
  "add_utxos ops H block (with_first_inputs ins txs) i u = add_utxos ops H block txs i u"
  by (cases txs) auto

lemma apply_block_coinbase_inputs:
  "apply_block ops H n k (with_coinbase_inputs g block) sp u = apply_block ops H n k block sp u"
proof -
  have d: "b_data (with_coinbase_inputs g block) = with_first_inputs (g block) (b_data block)"
    by (simp add: with_coinbase_inputs_def)
  have a: "add_utxos ops H (with_coinbase_inputs g block) txs i v = add_utxos ops H block txs i v"
    for txs i v
    by (rule add_utxos_block_fields) (simp_all add: with_coinbase_inputs_def)
  show ?thesis
    unfolding apply_block_def d a remove_stxos_first add_utxos_first ..
qed

lemma blocks_loop_coinbase_inputs:
  "blocks_loop ops H n k (map (with_coinbase_inputs g) blocks) sp u = blocks_loop ops H n k blocks sp u"
  by (induction blocks arbitrary: k sp u)
    (auto simp: apply_block_coinbase_inputs split: prod.splits sum.splits)

section \<open>The replay: the call log\<close>

text \<open>
  One step of each inner loop, with the outpoint object the script rebuilds field by
  field written as the record it is equal to.
\<close>

lemma delete_results_append [simp]:
  "delete_results (xs @ ys) = delete_results xs @ delete_results ys"
  by (induction xs rule: delete_results.induct) simp_all

lemma delete_results_adds:
  "list_all (\<lambda>c. \<not> is_delete c) cs \<Longrightarrow> delete_results cs = []"
  by (induction cs rule: delete_results.induct) simp_all


lemma rebuild_txout:
  "\<lparr>tx_value = tx_value t, pk_script = pk_script t, cached = cached t\<rparr> = t"
  by simp

lemma rebuild_outpoint:
  "\<lparr>txid = txid p, vout = vout p, data = data p, block_height = block_height p,
    block_time = block_time p, block_hash = block_hash p, is_coinbase = is_coinbase p\<rparr> = p"
  by simp

lemma handle_txin_loop_step:
  "handle_txin_loop ops H (input # rest) ps u =
     (if cached (data (previous_output input)) then handle_txin_loop ops H rest ps u
      else
        (case hash H (previous_output input) of
           Inl e \<Rightarrow> (Inl e, u)
         | Inr leaf \<Rightarrow>
             (let r = fst (utreexo_delete ops leaf (utreexo u));
                  u' = u\<lparr>utreexo := snd (utreexo_delete ops leaf (utreexo u)),
                         calls := calls u @ [Delete (previous_output input) leaf r]\<rparr>
              in
              (case r of
                 Inl e \<Rightarrow> (Inl e, u')
               | Inr pl \<Rightarrow>
                   (case proof_entry pl of
                      Inl e \<Rightarrow> (Inl e, u')
                    | Inr entry \<Rightarrow> handle_txin_loop ops H rest (ps @ [entry]) u')))))"
  unfolding handle_txin_loop.simps Let_def rebuild_txout rebuild_outpoint case_prod_beta
  by (rule refl)

lemma handle_txout_loop_step:
  "handle_txout_loop ops H (output # rest) i bhash bheight btime tid cb u =
     (if cached output then handle_txout_loop ops H rest (i + 1) bhash bheight btime tid cb u
      else
        (let p = \<lparr>txid = tid, vout = i, data = output, block_height = bheight,
                  block_time = btime, block_hash = bhash, is_coinbase = cb\<rparr>
         in
         (case hash H p of
            Inl e \<Rightarrow> (Inl e, u)
          | Inr leaf \<Rightarrow>
              (let r = fst (utreexo_add ops leaf (utreexo u));
                   u' = u\<lparr>utreexo := snd (utreexo_add ops leaf (utreexo u)),
                          calls := calls u @ [Add p leaf r]\<rparr>
               in
               (case r of
                  Inl e \<Rightarrow> (Inl e, u')
                | Inr x \<Rightarrow>
                    handle_txout_loop ops H rest (i + 1) bhash bheight btime tid cb u')))))"
  unfolding handle_txout_loop.simps Let_def rebuild_txout case_prod_beta
  by (rule refl)

declare handle_txin_loop.simps(2) [simp del] handle_txout_loop.simps(2) [simp del]

lemma handle_txin_loop_log:
  "\<exists>ds. txin_post H ps u (handle_txin_loop ops H ins ps u) ds"
proof (induction ins arbitrary: ps u)
  case Nil
  show ?case by (simp add: txin_post_def)
next
  case (Cons input rest)
  let ?p = "previous_output input"
  show ?case
  proof (cases "cached (data ?p)")
    case True
    with Cons.IH [where ps = ps and u = u] show ?thesis by (simp add: handle_txin_loop_step)
  next
    case nc: False
    show ?thesis
    proof (cases "hash H ?p")
      case (Inl e)
      with nc show ?thesis by (simp add: txin_post_def handle_txin_loop_step)
    next
      case (Inr leaf)
      obtain r a where del: "utreexo_delete ops leaf (utreexo u) = (r, a)"
        by (cases "utreexo_delete ops leaf (utreexo u)")
      let ?c = "Delete ?p leaf r"
      let ?u = "u\<lparr>utreexo := a, calls := calls u @ [?c]\<rparr>"
      have c: "is_delete ?c" "uncached_call H ?c"
        using nc Inr by (simp_all add: uncached_call_def)
      show ?thesis
      proof (cases "case r of Inl e \<Rightarrow> Inl e | Inr pl \<Rightarrow> proof_entry pl")
        case (Inl e)
        then have "handle_txin_loop ops H (input # rest) ps u = (Inl e, ?u)"
          using nc Inr del by (auto simp: handle_txin_loop_step Let_def split: sum.splits)
        with c have "txin_post H ps u (handle_txin_loop ops H (input # rest) ps u) [?c]"
          by (simp add: txin_post_def)
        then show ?thesis ..
      next
        case ok: (Inr entry)
        then obtain pl where pl: "r = Inr pl" "proof_entry pl = Inr entry"
          by (auto split: sum.splits)
        have step: "handle_txin_loop ops H (input # rest) ps u =
              handle_txin_loop ops H rest (ps @ [entry]) ?u"
          using nc Inr del pl by (simp add: handle_txin_loop_step)
        from Cons.IH [where ps = "ps @ [entry]" and u = ?u] obtain ds
          where ds: "txin_post H (ps @ [entry]) ?u (handle_txin_loop ops H rest (ps @ [entry]) ?u) ds"
          by blast
        have "txin_post H ps u (handle_txin_loop ops H (input # rest) ps u) (?c # ds)"
          using ds c pl unfolding step
          by (auto simp: txin_post_def result_entry_def split: sum.splits)
        then show ?thesis ..
      qed
    qed
  qed
qed

lemma handle_txin_log:
  "\<exists>ds. calls (snd (handle_txin ops H ins u)) = calls u @ ds \<and> list_all is_delete ds \<and>
        list_all (uncached_call H) ds \<and>
        (case fst (handle_txin ops H ins u) of
           Inl e \<Rightarrow> True
         | Inr inc \<Rightarrow> map Inr inc = map result_entry (delete_results ds))"
proof -
  from handle_txin_loop_log [of H "[]" u ops ins] obtain ds
    where ds: "txin_post H [] u (handle_txin_loop ops H ins [] u) ds" by blast
  have "calls (snd (handle_txin ops H ins u)) = calls u @ ds \<and> list_all is_delete ds \<and>
        list_all (uncached_call H) ds \<and>
        (case fst (handle_txin ops H ins u) of
           Inl e \<Rightarrow> True
         | Inr inc \<Rightarrow> map Inr inc = map result_entry (delete_results ds))"
    using ds by (cases "fst (handle_txin_loop ops H ins [] u)")
      (simp_all add: txin_post_def handle_txin_def)
  then show ?thesis ..
qed

lemma handle_txout_loop_log:
  "\<exists>as. txout_post H u (handle_txout_loop ops H outs i bhash bheight btime tid cb u) as"
proof (induction outs arbitrary: i u)
  case Nil
  show ?case by (simp add: txout_post_def)
next
  case (Cons out rest)
  let ?p = "\<lparr>txid = tid, vout = i, data = out, block_height = bheight,
             block_time = btime, block_hash = bhash, is_coinbase = cb\<rparr>"
  let ?lhs = "handle_txout_loop ops H (out # rest) i bhash bheight btime tid cb u"
  show ?case
  proof (cases "cached out")
    case True
    with Cons.IH [where i = "i + 1" and u = u] show ?thesis by (simp add: handle_txout_loop_step)
  next
    case nc: False
    show ?thesis
    proof (cases "hash H ?p")
      case (Inl e)
      with nc show ?thesis by (simp add: txout_post_def handle_txout_loop_step)
    next
      case (Inr leaf)
      let ?r = "fst (utreexo_add ops leaf (utreexo u))"
      let ?c = "Add ?p leaf ?r"
      let ?u = "u\<lparr>utreexo := snd (utreexo_add ops leaf (utreexo u)), calls := calls u @ [?c]\<rparr>"
      have c: "\<not> is_delete ?c" "uncached_call H ?c"
        using nc Inr by (simp_all add: uncached_call_def)
      show ?thesis
      proof (cases ?r)
        case (Inl e)
        then have "?lhs = (Inl e, ?u)"
          using nc Inr by (simp add: handle_txout_loop_step Let_def)
        with c have "txout_post H u ?lhs [?c]"
          by (simp add: txout_post_def)
        then show ?thesis ..
      next
        case ok: (Inr x)
        have step: "?lhs = handle_txout_loop ops H rest (i + 1) bhash bheight btime tid cb ?u"
          using nc Inr ok by (simp add: handle_txout_loop_step Let_def)
        from Cons.IH [where i = "i + 1" and u = ?u] obtain as
          where as: "txout_post H ?u (handle_txout_loop ops H rest (i + 1) bhash bheight btime tid cb ?u) as"
          by blast
        have "txout_post H u ?lhs (?c # as)"
          using as c unfolding step by (simp add: txout_post_def)
        then show ?thesis ..
      qed
    qed
  qed
qed

lemma remove_stxos_log:
  "\<exists>ds. removal_post H (k = n - 1) ps u (remove_stxos ops H n k txs i ps u) ds"
proof (induction txs arbitrary: i ps u)
  case Nil
  show ?case by (simp add: removal_post_def)
next
  case (Cons a rest)
  obtain tid tx where a: "a = (tid, tx)" by (cases a)
  show ?case
  proof (cases "i = 0")
    case True
    with a Cons.IH [where i = "i + 1" and ps = ps and u = u] show ?thesis by simp
  next
    case nz: False
    obtain r u1 where h: "handle_txin ops H (inputs tx) u = (r, u1)"
      by (cases "handle_txin ops H (inputs tx) u")
    from handle_txin_log [of ops H "inputs tx" u] h obtain ds1
      where ds1: "calls u1 = calls u @ ds1" "list_all is_delete ds1" "list_all (uncached_call H) ds1"
        "case r of Inl e \<Rightarrow> True | Inr inc \<Rightarrow> map Inr inc = map result_entry (delete_results ds1)"
      by auto
    show ?thesis
    proof (cases r)
      case (Inl e)
      with a nz h have "remove_stxos ops H n k (a # rest) i ps u = (Inl e, u1)" by simp
      with ds1 have "removal_post H (k = n - 1) ps u (remove_stxos ops H n k (a # rest) i ps u) ds1"
        by (simp add: removal_post_def)
      then show ?thesis ..
    next
      case (Inr inc)
      let ?ps = "if k = n - 1 then ps @ inc else ps"
      have step: "remove_stxos ops H n k (a # rest) i ps u = remove_stxos ops H n k rest (i + 1) ?ps u1"
        using a nz h Inr by simp
      from Cons.IH [where i = "i + 1" and ps = ?ps and u = u1] obtain ds2
        where ds2: "removal_post H (k = n - 1) ?ps u1 (remove_stxos ops H n k rest (i + 1) ?ps u1) ds2"
        by blast
      have "removal_post H (k = n - 1) ps u (remove_stxos ops H n k (a # rest) i ps u) (ds1 @ ds2)"
        using ds1 ds2 Inr unfolding step
        by (auto simp: removal_post_def split: sum.splits)
      then show ?thesis ..
    qed
  qed
qed

lemma add_utxos_log:
  "\<exists>as. txout_post H u (add_utxos ops H block txs i u) as"
proof (induction txs arbitrary: i u)
  case Nil
  show ?case by (simp add: txout_post_def)
next
  case (Cons a rest)
  obtain tid tx where a: "a = (tid, tx)" by (cases a)
  let ?h = "handle_txout ops H (outputs tx) (b_hash block) (b_height block) (b_time block) tid (i = 0) u"
  obtain r u1 where h: "?h = (r, u1)" by (cases ?h)
  from handle_txout_loop_log [of H u ops "outputs tx" 0 "b_hash block" "b_height block" "b_time block" tid "i = 0"]
    h obtain as1 where as1: "txout_post H u (r, u1) as1"
    by (auto simp: handle_txout_def)
  show ?case
  proof (cases r)
    case (Inl e)
    with a h have "add_utxos ops H block (a # rest) i u = (Inl e, u1)" by simp
    with as1 have "txout_post H u (add_utxos ops H block (a # rest) i u) as1"
      by (simp add: txout_post_def)
    then show ?thesis ..
  next
    case (Inr x)
    have step: "add_utxos ops H block (a # rest) i u = add_utxos ops H block rest (i + 1) u1"
      using a h Inr by simp
    from Cons.IH [where i = "i + 1" and u = u1] obtain as2
      where as2: "txout_post H u1 (add_utxos ops H block rest (i + 1) u1) as2"
      by blast
    have "txout_post H u (add_utxos ops H block (a # rest) i u) (as1 @ as2)"
      using as1 as2 unfolding step by (simp add: txout_post_def)
    then show ?thesis ..
  qed
qed

lemma apply_block_log:
  "\<exists>ds as. block_post ops H (k = n - 1) sp u (apply_block ops H n k block sp u) ds as"
proof -
  let ?st = "if k = n - 1
            then (case snapshot_state ops u of Inl e \<Rightarrow> Inl e | Inr s \<Rightarrow> Inr (Some s))
            else Inr (fst sp)"
  show ?thesis
  proof (cases ?st)
    case (Inl e)
    then have "apply_block ops H n k block sp u = (Inl e, u)"
      by (simp add: apply_block_def)
    then have "block_post ops H (k = n - 1) sp u (apply_block ops H n k block sp u) [] []"
      by (simp add: block_post_def)
    then show ?thesis by blast
  next
    case st: (Inr st)
    obtain r1 u1 where rm: "remove_stxos ops H n k (b_data block) 0 (snd sp) u = (r1, u1)"
      by (cases "remove_stxos ops H n k (b_data block) 0 (snd sp) u")
    from remove_stxos_log [of H k n "snd sp" u ops "b_data block" 0] rm obtain ds
      where ds: "removal_post H (k = n - 1) (snd sp) u (r1, u1) ds" by auto
    show ?thesis
    proof (cases r1)
      case (Inl e)
      with st rm have "apply_block ops H n k block sp u = (Inl e, u1)"
        by (simp add: apply_block_def)
      with ds have "block_post ops H (k = n - 1) sp u (apply_block ops H n k block sp u) ds []"
        by (simp add: block_post_def removal_post_def)
      then show ?thesis by blast
    next
      case ps: (Inr ps')
      obtain r2 u2 where ad: "add_utxos ops H block (b_data block) 0 u1 = (r2, u2)"
        by (cases "add_utxos ops H block (b_data block) 0 u1")
      from add_utxos_log [of H u1 ops block "b_data block" 0] ad obtain as
        where as: "txout_post H u1 (r2, u2) as" by auto
      have res: "apply_block ops H n k block sp u =
          (case r2 of Inl e \<Rightarrow> (Inl e, u2) | Inr x \<Rightarrow> (Inr (st, ps'), u2))"
        using st rm ps ad by (simp add: apply_block_def split: sum.splits)
      have "block_post ops H (k = n - 1) sp u (apply_block ops H n k block sp u) ds as"
        using ds as ps st unfolding res
        by (cases r2)
          (auto simp: block_post_def removal_post_def txout_post_def split: sum.splits if_splits)
      then show ?thesis by blast
    qed
  qed
qed

lemma blocks_loop_not_last:
  "k + int (length bs) \<le> n - 1 \<Longrightarrow> blocks_loop ops H n k bs sp u = (Inr sp', u') \<Longrightarrow> sp' = sp"
proof (induction bs arbitrary: k sp u)
  case Nil
  then show ?case by simp
next
  case (Cons b bs)
  obtain r u1 where ab: "apply_block ops H n k b sp u = (r, u1)"
    by (cases "apply_block ops H n k b sp u")
  from Cons.prems(2) ab obtain sp1 where r: "r = Inr sp1"
    and rest: "blocks_loop ops H n (k + 1) bs sp1 u1 = (Inr sp', u')"
    by (cases r) simp_all
  have nl: "k \<noteq> n - 1" using Cons.prems(1) by simp
  from apply_block_log [of ops H k n sp u b] obtain ds as
    where "block_post ops H (k = n - 1) sp u (apply_block ops H n k b sp u) ds as" by blast
  with ab r nl have "sp1 = sp"
    by (cases sp1, cases sp) (simp add: block_post_def)
  moreover have "sp' = sp1"
    using Cons.IH [where k = "k + 1" and sp = sp1 and u = u1] Cons.prems(1) rest by simp
  ultimately show ?case by simp
qed

lemma blocks_loop_log:
  "\<exists>cs. calls (snd (blocks_loop ops H n k bs sp u)) = calls u @ cs \<and> list_all (uncached_call H) cs"
proof (induction bs arbitrary: k sp u)
  case Nil
  show ?case by simp
next
  case (Cons b bs)
  obtain r u1 where ab: "apply_block ops H n k b sp u = (r, u1)"
    by (cases "apply_block ops H n k b sp u")
  from apply_block_log [of ops H k n sp u b] ab obtain ds as
    where c1: "calls u1 = calls u @ ds @ as" "list_all (uncached_call H) (ds @ as)"
    by (auto simp: block_post_def)
  show ?case
  proof (cases r)
    case (Inl e)
    with ab c1 show ?thesis by simp
  next
    case (Inr sp1)
    from Cons.IH [where k = "k + 1" and sp = sp1 and u = u1] obtain cs
      where "calls (snd (blocks_loop ops H n (k + 1) bs sp1 u1)) = calls u1 @ cs"
        "list_all (uncached_call H) cs" by blast
    with ab Inr c1 have "calls (snd (blocks_loop ops H n k (b # bs) sp u)) = calls u @ (ds @ as @ cs)
        \<and> list_all (uncached_call H) (ds @ as @ cs)" by simp
    then show ?thesis by blast
  qed
qed

lemma apply_blocks_log:
  "\<exists>cs. calls (snd (apply_blocks ops H blocks u)) = calls u @ cs \<and> list_all (uncached_call H) cs"
proof -
  let ?n = "int (length blocks)"
  from blocks_loop_log [of ops H ?n 0 blocks "(None, [])" u] obtain cs
    where cs: "calls (snd (blocks_loop ops H ?n 0 blocks (None, []) u)) = calls u @ cs"
      "list_all (uncached_call H) cs" by blast
  have "snd (apply_blocks ops H blocks u) = snd (blocks_loop ops H ?n 0 blocks (None, []) u)"
    by (simp add: apply_blocks_def split: prod.splits sum.splits)
  with cs show ?thesis by auto
qed

lemma apply_blocks_last:
  assumes "apply_blocks ops H (pre @ [block]) u = (Inr r, u')"
  shows "\<exists>u1 s ds as.
      blocks_loop ops H (int (length pre) + 1) 0 pre (None, []) u = (Inr (None, []), u1) \<and>
      snapshot_state ops u1 = Inr s \<and> state r = Some s \<and>
      apply_block ops H (int (length pre) + 1) (int (length pre)) block (None, []) u1
        = (Inr (Some s, proofs r), u') \<and>
      snapshot_state ops u' = Inr (expected r) \<and>
      calls u' = calls u1 @ ds @ as \<and> list_all is_delete ds \<and>
      list_all (\<lambda>c. \<not> is_delete c) as \<and>
      map Inr (proofs r) = map result_entry (delete_results ds)"
proof -
  let ?n = "int (length pre) + 1"
  obtain r1 u1 where pre: "blocks_loop ops H ?n 0 pre (None, []) u = (r1, u1)"
    by (cases "blocks_loop ops H ?n 0 pre (None, []) u")
  have whole: "blocks_loop ops H ?n 0 (pre @ [block]) (None, []) u =
      (case r1 of Inl e \<Rightarrow> (Inl e, u1)
       | Inr sp1 \<Rightarrow> blocks_loop ops H ?n (int (length pre)) [block] sp1 u1)"
    using pre by (cases r1) (simp_all add: blocks_loop_append)
  from assms obtain sp2 where
    l2: "blocks_loop ops H ?n 0 (pre @ [block]) (None, []) u = (Inr sp2, u')"
    and sn: "snapshot_state ops u' = Inr (expected r)"
    and st: "state r = fst sp2" and pr: "proofs r = snd sp2"
    by (auto simp: apply_blocks_def add.commute split: prod.splits sum.splits)
  from l2 whole obtain sp1 where r1: "r1 = Inr sp1"
    and last: "blocks_loop ops H ?n (int (length pre)) [block] sp1 u1 = (Inr sp2, u')"
    by (cases r1) simp_all
  have sp1: "sp1 = (None, [])"
    using blocks_loop_not_last [of 0 pre ?n ops H "(None, [])" u sp1 u1] pre r1 by simp
  have ab: "apply_block ops H ?n (int (length pre)) block (None, []) u1 = (Inr sp2, u')"
    using last sp1 by (simp split: prod.splits sum.splits)
  from apply_block_log [of ops H "int (length pre)" ?n "(None, [])" u1 block] obtain ds as
    where bp: "block_post ops H (int (length pre) = ?n - 1) (None, []) u1
        (apply_block ops H ?n (int (length pre)) block (None, []) u1) ds as" by blast
  from bp ab obtain s where s: "snapshot_state ops u1 = Inr s" "fst sp2 = Some s"
    by (auto simp: block_post_def split: sum.splits)
  have "blocks_loop ops H ?n 0 pre (None, []) u = (Inr (None, []), u1) \<and>
      snapshot_state ops u1 = Inr s \<and> state r = Some s \<and>
      apply_block ops H ?n (int (length pre)) block (None, []) u1 = (Inr (Some s, proofs r), u') \<and>
      snapshot_state ops u' = Inr (expected r) \<and>
      calls u' = calls u1 @ ds @ as \<and> list_all is_delete ds \<and>
      list_all (\<lambda>c. \<not> is_delete c) as \<and>
      map Inr (proofs r) = map result_entry (delete_results ds)"
    using pre r1 sp1 s st pr sn ab bp
    by (cases sp2) (auto simp: block_post_def)
  then show ?thesis by blast
qed

section \<open>The replay: deleting a leaf the accumulator does not hold\<close>

lemma hash_Inr_iff: "hash H p = Inr leaf \<longleftrightarrow> (\<exists>tab. hash_elements p = Inr tab \<and> leaf = H tab)"
  by (auto simp: hash_def split: sum.splits)






section \<open>The replay: what is compressed into a leaf\<close>

lemma serialize_last: "serialize t = Inr es \<Longrightarrow> last es = (if cached t then 1 else 0)"
  by (auto simp: serialize_def Let_def split: sum.splits prod.splits if_splits)

lemma hash_elements_shape:
  assumes "hash_elements p = Inr tab"
  shows "\<exists>es. serialize (data p) = Inr es \<and> take (length es) (drop 3 tab) = es \<and>
           last tab = (if is_coinbase p then 1 else 0)"
  using assms by (auto simp: hash_elements_def Let_def split: sum.splits)

lemma uncached_call_leaf: "uncached_call H c \<Longrightarrow> uncached_leaf H c"
proof -
  assume u: "uncached_call H c"
  let ?p = "call_outpoint c"
  from u have nc: "\<not> cached (data ?p)" and h: "hash H ?p = Inr (call_leaf c)"
    by (simp_all add: uncached_call_def)
  from h obtain tab where tab: "hash_elements ?p = Inr tab" "call_leaf c = H tab"
    by (auto simp: hash_Inr_iff)
  from hash_elements_shape [OF tab(1)] obtain es
    where es: "serialize (data ?p) = Inr es" "take (length es) (drop 3 tab) = es"
      "last tab = (if is_coinbase ?p then 1 else 0)" by blast
  from serialize_last [OF es(1)] nc have "last es = 0" by simp
  with nc tab es show ?thesis by (simp add: uncached_leaf_def)
qed

section \<open>The replay: what the proofs and the snapshots hold\<close>

lemma format_node_int: "format_node node = Inr v \<longleftrightarrow> node_int node = Some v"
  by (auto simp: format_node_def node_int_def split: sum.splits)

lemma format_node_fails: "(\<exists>e. format_node node = Inl e) \<longleftrightarrow> node_int node = None"
  by (auto simp: format_node_def node_int_def split: sum.splits)

lemma map_raise_Inr_Cons:
  "map_raise f (x # xs) = Inr (y # ys) \<longleftrightarrow> f x = Inr y \<and> map_raise f xs = Inr ys"
  by (simp split: sum.splits)

lemma map_raise_Inr_Nil: "map_raise f (x # xs) \<noteq> Inr []"
  by (simp split: sum.splits)

lemma map_raise_records:
  assumes "\<And>x y. f x = Inr y \<longleftrightarrow> g x = Some y"
  shows "map_raise f xs = Inr ys \<longleftrightarrow> map g xs = map Some ys"
proof (induction xs arbitrary: ys)
  case Nil
  show ?case by auto
next
  case (Cons x xs)
  show ?case
  proof (cases ys)
    case Nil
    then show ?thesis using map_raise_Inr_Nil [of f x xs] by simp
  next
    case (Cons y zs)
    then show ?thesis
      using Cons.IH [of zs] assms [of x y] by (simp only: map_raise_Inr_Cons list.map list.inject)
  qed
qed

lemma map_raise_format_node:
  "map_raise format_node nodes = Inr vs \<longleftrightarrow> map node_int nodes = map Some vs"
  by (rule map_raise_records) (rule format_node_int)

lemma format_root_node_record:
  "format_root_node node = Inr r \<longleftrightarrow> root_record node = Some r"
  by (cases node) (auto simp: format_root_node_def node_int_def format_node_def split: sum.splits)

lemma format_root_node_fails:
  "(\<exists>e. format_root_node node = Inl e) \<longleftrightarrow> root_record node = None"
  by (cases node) (auto simp: format_root_node_def node_int_def format_node_def split: sum.splits)

lemma map_raise_format_root_node:
  "map_raise format_root_node nodes = Inr rs \<longleftrightarrow> map root_record nodes = map Some rs"
  by (rule map_raise_records) (rule format_root_node_record)

lemma snapshot_state_is_snapshot:
  "snapshot_state ops u = Inr s \<longleftrightarrow> is_snapshot ops u s"
proof
  assume "snapshot_state ops u = Inr s"
  then obtain rs where "map_raise format_root_node (root_nodes ops (utreexo u)) = Inr rs"
    and "s = \<lparr>roots = rs, num_leaves = int (leaf_nodes_len ops (utreexo u))\<rparr>"
    by (auto simp: snapshot_state_def split: sum.splits)
  then show "is_snapshot ops u s"
    by (simp add: is_snapshot_def map_raise_format_root_node)
next
  assume "is_snapshot ops u s"
  then have "map_raise format_root_node (root_nodes ops (utreexo u)) = Inr (roots s)"
    and "num_leaves s = int (leaf_nodes_len ops (utreexo u))"
    by (simp_all add: is_snapshot_def map_raise_format_root_node)
  then show "snapshot_state ops u = Inr s"
    by (simp add: snapshot_state_def)
qed

lemma result_entry_record:
  "result_entry x = Inr entry \<Longrightarrow> removal_record x = entry_record entry"
proof (cases x)
  case (Inl e)
  assume "result_entry x = Inr entry"
  with Inl show ?thesis by (simp add: result_entry_def)
next
  case (Inr pl)
  assume a: "result_entry x = Inr entry"
  obtain nodes idx where pl: "pl = (nodes, idx)" by (cases pl)
  from a Inr pl obtain vs where "map_raise format_node nodes = Inr vs"
    and "entry = \<lparr>proof_nodes = vs, leaf_index = idx\<rparr>"
    by (auto simp: result_entry_def proof_entry_def split: sum.splits)
  with Inr pl show ?thesis
    by (simp add: entry_record_def map_raise_format_node)
qed

lemma entries_records:
  "map Inr es = map result_entry xs \<Longrightarrow> map entry_record es = map removal_record xs"
proof (induction es arbitrary: xs)
  case Nil
  then show ?case by simp
next
  case (Cons e es)
  then obtain y ys where xs: "xs = y # ys" by (cases xs) auto
  with Cons.prems have "result_entry y = Inr e" "map Inr es = map result_entry ys" by auto
  with Cons.IH [of ys] xs show ?case by (simp add: result_entry_record)
qed

section \<open>The example runs\<close>

lemma example_three_run:
  "apply_blocks node_utreexo sum_list
     ([example_block_three, example_block_spend_one] @ [example_block_spend_two])
     (UtreexoData_init node_utreexo) =
   (Inr example_result_three,
    snd (apply_blocks node_utreexo sum_list
      ([example_block_three, example_block_spend_one] @ [example_block_spend_two])
      (UtreexoData_init node_utreexo)))"
proof -
  have "fst (apply_blocks node_utreexo sum_list
     ([example_block_three, example_block_spend_one] @ [example_block_spend_two])
     (UtreexoData_init node_utreexo)) = Inr example_result_three"
    by code_simp
  then show ?thesis by (metis prod.collapse)
qed

lemma example_three_earlier:
  "blocks_loop node_utreexo sum_list (int (length [example_block_three, example_block_spend_one]) + 1) 0
     [example_block_three, example_block_spend_one] (None, []) (UtreexoData_init node_utreexo) =
   (Inr (None, []),
    snd (blocks_loop node_utreexo sum_list 3 0
     [example_block_three, example_block_spend_one] (None, []) (UtreexoData_init node_utreexo)))"
proof -
  have "fst (blocks_loop node_utreexo sum_list 3 0
     [example_block_three, example_block_spend_one] (None, []) (UtreexoData_init node_utreexo))
     = Inr (None, [])"
    by code_simp
  then have "blocks_loop node_utreexo sum_list 3 0
     [example_block_three, example_block_spend_one] (None, []) (UtreexoData_init node_utreexo) =
   (Inr (None, []),
    snd (blocks_loop node_utreexo sum_list 3 0
     [example_block_three, example_block_spend_one] (None, []) (UtreexoData_init node_utreexo)))"
    by (metis prod.collapse)
  then show ?thesis by simp
qed

section \<open>Claims about apply_blocks\<close>




text \<open>
  Claim C5.  For the empty block sequence the returned proof list is empty.  When
  \<^verbatim>\<open>apply_blocks\<close> returns a result for the blocks \<open>pre\<close> followed by a last block,
  the loop has processed \<open>pre\<close> with no proof kept, and the returned proofs match, one by
  one and in order, the removals logged while the last block was processed: each of
  these removals succeeded, and its entry holds the values of the nodes of the proof it
  returned, in their order, and the position it returned as \<^verbatim>\<open>leaf_index\<close>.  A removal
  of an earlier block has no entry.
\<close>

theorem last_block_proofs:
  "(\<forall>r u'. apply_blocks ops H [] u = (Inr r, u') \<longrightarrow> proofs r = []) \<and>
   (\<forall>r u'. apply_blocks ops H (pre @ [block]) u = (Inr r, u') \<longrightarrow>
      (\<exists>u1 cs.
         blocks_loop ops H (int (length pre) + 1) 0 pre (None, []) u = (Inr (None, []), u1) \<and>
         snd (apply_block ops H (int (length pre) + 1) (int (length pre)) block (None, []) u1) = u' \<and>
         calls u' = calls u1 @ cs \<and>
         map entry_record (proofs r) = map removal_record (delete_results cs)))"
proof (intro conjI allI impI)
  fix r u'
  assume "apply_blocks ops H [] u = (Inr r, u')"
  then show "proofs r = []"
    by (auto simp: apply_blocks_def split: sum.splits)
next
  fix r u'
  assume "apply_blocks ops H (pre @ [block]) u = (Inr r, u')"
  from apply_blocks_last [OF this] obtain u1 s ds as where
    a: "blocks_loop ops H (int (length pre) + 1) 0 pre (None, []) u = (Inr (None, []), u1)"
      "apply_block ops H (int (length pre) + 1) (int (length pre)) block (None, []) u1
        = (Inr (Some s, proofs r), u')"
      "calls u' = calls u1 @ ds @ as" "list_all (\<lambda>c. \<not> is_delete c) as"
      "map Inr (proofs r) = map result_entry (delete_results ds)"
    by blast
  from a(4) have "delete_results (ds @ as) = delete_results ds"
    by (simp add: delete_results_adds)
  with a(5) have "map entry_record (proofs r) = map removal_record (delete_results (ds @ as))"
    by (simp add: entries_records)
  with a have "blocks_loop ops H (int (length pre) + 1) 0 pre (None, []) u = (Inr (None, []), u1) \<and>
         snd (apply_block ops H (int (length pre) + 1) (int (length pre)) block (None, []) u1) = u' \<and>
         calls u' = calls u1 @ (ds @ as) \<and>
         map entry_record (proofs r) = map removal_record (delete_results (ds @ as))"
    by simp
  then show "\<exists>u1 cs.
         blocks_loop ops H (int (length pre) + 1) 0 pre (None, []) u = (Inr (None, []), u1) \<and>
         snd (apply_block ops H (int (length pre) + 1) (int (length pre)) block (None, []) u1) = u' \<and>
         calls u' = calls u1 @ cs \<and>
         map entry_record (proofs r) = map removal_record (delete_results cs)"
    by blast
qed

text \<open>
  C5 on three blocks over the accumulator that hands out nodes: the second block makes
  one removal, which has no entry, and the last block makes two, in two transactions;
  the two entries hold, in the order of the removals, the node values 2, 1 with position 1
  and 1, 0 with position 0.
\<close>

theorem last_block_proofs_witness:
  "fst (apply_blocks node_utreexo sum_list
     ([example_block_three, example_block_spend_one] @ [example_block_spend_two])
     (UtreexoData_init node_utreexo)) = Inr example_result_three \<and>
   proofs example_result_three =
     [\<lparr>proof_nodes = [2, 1], leaf_index = 1\<rparr>, \<lparr>proof_nodes = [1, 0], leaf_index = 0\<rparr>] \<and>
   delete_results (calls (snd (blocks_loop node_utreexo sum_list 3 0
     [example_block_three, example_block_spend_one] (None, []) (UtreexoData_init node_utreexo)))) =
     [Inr ([\<lparr>val = ''0x03''\<rparr>, \<lparr>val = ''0x00''\<rparr>], 0)] \<and>
   (\<exists>cs.
      calls (snd (apply_blocks node_utreexo sum_list
        ([example_block_three, example_block_spend_one] @ [example_block_spend_two])
        (UtreexoData_init node_utreexo))) =
      calls (snd (blocks_loop node_utreexo sum_list 3 0
        [example_block_three, example_block_spend_one] (None, []) (UtreexoData_init node_utreexo))) @ cs \<and>
      delete_results cs =
        [Inr ([\<lparr>val = ''0x02''\<rparr>, \<lparr>val = ''0x01''\<rparr>], 1),
         Inr ([\<lparr>val = ''0x01''\<rparr>, \<lparr>val = ''0x00''\<rparr>], 0)] \<and>
      map entry_record (proofs example_result_three) = map removal_record (delete_results cs))"
proof -
  let ?u = "UtreexoData_init node_utreexo"
  let ?pre = "[example_block_three, example_block_spend_one]"
  let ?run = "apply_blocks node_utreexo sum_list (?pre @ [example_block_spend_two]) ?u"
  let ?u1 = "snd (blocks_loop node_utreexo sum_list 3 0 ?pre (None, []) ?u)"
  have f: "fst ?run = Inr example_result_three"
    using example_three_run by (metis fst_conv)
  have p: "proofs example_result_three =
     [\<lparr>proof_nodes = [2, 1], leaf_index = 1\<rparr>, \<lparr>proof_nodes = [1, 0], leaf_index = 0\<rparr>]"
    by (simp add: example_result_three_def)
  have d1: "delete_results (calls ?u1) = [Inr ([\<lparr>val = ''0x03''\<rparr>, \<lparr>val = ''0x00''\<rparr>], 0)]"
    by code_simp
  have d: "delete_results (calls (snd ?run)) =
      [Inr ([\<lparr>val = ''0x03''\<rparr>, \<lparr>val = ''0x00''\<rparr>], 0),
       Inr ([\<lparr>val = ''0x02''\<rparr>, \<lparr>val = ''0x01''\<rparr>], 1),
       Inr ([\<lparr>val = ''0x01''\<rparr>, \<lparr>val = ''0x00''\<rparr>], 0)]"
    by code_simp
  from last_block_proofs [of node_utreexo sum_list ?u ?pre example_block_spend_two]
    example_three_run obtain u1 cs where
    a: "blocks_loop node_utreexo sum_list (int (length ?pre) + 1) 0 ?pre (None, []) ?u
          = (Inr (None, []), u1)"
      "calls (snd ?run) = calls u1 @ cs"
      "map entry_record (proofs example_result_three) = map removal_record (delete_results cs)"
    by blast
  from a(1) example_three_earlier have u1: "u1 = ?u1" by simp
  from a(2) u1 have "delete_results (calls (snd ?run)) = delete_results (calls ?u1) @ delete_results cs"
    by (simp add: delete_results_append)
  with d d1 have dc: "delete_results cs =
        [Inr ([\<lparr>val = ''0x02''\<rparr>, \<lparr>val = ''0x01''\<rparr>], 1),
         Inr ([\<lparr>val = ''0x01''\<rparr>, \<lparr>val = ''0x00''\<rparr>], 0)]"
    by simp
  from a(2,3) u1 dc have "\<exists>cs. calls (snd ?run) = calls ?u1 @ cs \<and>
      delete_results cs =
        [Inr ([\<lparr>val = ''0x02''\<rparr>, \<lparr>val = ''0x01''\<rparr>], 1),
         Inr ([\<lparr>val = ''0x01''\<rparr>, \<lparr>val = ''0x00''\<rparr>], 0)] \<and>
      map entry_record (proofs example_result_three) = map removal_record (delete_results cs)"
    by blast
  with f p d1 show ?thesis by blast
qed

text \<open>
  Claim C6.  A snapshot is spelled out by \<open>is_snapshot\<close>: the roots of the accumulator,
  one entry for each root node, and its leaf count.  For the empty block sequence
  \<^verbatim>\<open>apply_blocks\<close> returns, whenever the accumulator has a snapshot, the empty state
  \<^verbatim>\<open>{}\<close>, no proof and that snapshot as \<^verbatim>\<open>expected\<close>, and it returns nothing else.
  When it returns a result for the blocks \<open>pre\<close> followed by a last block, \<^verbatim>\<open>state\<close>
  is the snapshot, roots and leaf count, of the accumulator as the blocks \<open>pre\<close> left
  it, before the last block is processed, and \<^verbatim>\<open>expected\<close> is the snapshot of the
  accumulator that the last block leaves.
\<close>

theorem checkpoint_snapshots:
  "(\<forall>s. is_snapshot ops u s \<longrightarrow>
      apply_blocks ops H [] u = (Inr \<lparr>state = None, proofs = [], expected = s\<rparr>, u)) \<and>
   (\<forall>r u'. apply_blocks ops H [] u = (Inr r, u') \<longrightarrow>
      state r = None \<and> u' = u \<and> is_snapshot ops u (expected r)) \<and>
   (\<forall>r u'. apply_blocks ops H (pre @ [block]) u = (Inr r, u') \<longrightarrow>
      (\<exists>u1 s.
         blocks_loop ops H (int (length pre) + 1) 0 pre (None, []) u = (Inr (None, []), u1) \<and>
         snd (apply_block ops H (int (length pre) + 1) (int (length pre)) block (None, []) u1) = u' \<and>
         state r = Some s \<and> is_snapshot ops u1 s \<and> is_snapshot ops u' (expected r)))"
proof (intro conjI allI impI)
  fix s
  assume "is_snapshot ops u s"
  then have "snapshot_state ops u = Inr s" by (simp add: snapshot_state_is_snapshot)
  then show "apply_blocks ops H [] u = (Inr \<lparr>state = None, proofs = [], expected = s\<rparr>, u)"
    by (simp add: apply_blocks_def)
next
  fix r u'
  assume a: "apply_blocks ops H [] u = (Inr r, u')"
  then obtain s where s: "snapshot_state ops u = Inr s"
    and r: "r = \<lparr>state = None, proofs = [], expected = s\<rparr>" and u: "u' = u"
    by (auto simp: apply_blocks_def split: sum.splits)
  from r show "state r = None" by simp
  from u show "u' = u" .
  from s r show "is_snapshot ops u (expected r)" by (simp add: snapshot_state_is_snapshot)
next
  fix r u'
  assume "apply_blocks ops H (pre @ [block]) u = (Inr r, u')"
  from apply_blocks_last [OF this] obtain u1 s where
    "blocks_loop ops H (int (length pre) + 1) 0 pre (None, []) u = (Inr (None, []), u1)"
    "apply_block ops H (int (length pre) + 1) (int (length pre)) block (None, []) u1
        = (Inr (Some s, proofs r), u')"
    "snapshot_state ops u1 = Inr s" "state r = Some s" "snapshot_state ops u' = Inr (expected r)"
    by blast
  then have "blocks_loop ops H (int (length pre) + 1) 0 pre (None, []) u = (Inr (None, []), u1) \<and>
         snd (apply_block ops H (int (length pre) + 1) (int (length pre)) block (None, []) u1) = u' \<and>
         state r = Some s \<and> is_snapshot ops u1 s \<and> is_snapshot ops u' (expected r)"
    by (simp add: snapshot_state_is_snapshot)
  then show "\<exists>u1 s.
         blocks_loop ops H (int (length pre) + 1) 0 pre (None, []) u = (Inr (None, []), u1) \<and>
         snd (apply_block ops H (int (length pre) + 1) (int (length pre)) block (None, []) u1) = u' \<and>
         state r = Some s \<and> is_snapshot ops u1 s \<and> is_snapshot ops u' (expected r)" by blast
qed

text \<open>
  C6 on the same three blocks: before the last block the accumulator has an absent root,
  a root of value 2 and two leaves; after it an absent root, a root of value 0 and no
  leaf.
\<close>

theorem checkpoint_snapshots_witness:
  "is_snapshot node_utreexo (UtreexoData_init node_utreexo)
     \<lparr>roots = [None, Some \<lparr>variant_id = 0, root_value = 0\<rparr>], num_leaves = 0\<rparr> \<and>
   apply_blocks node_utreexo sum_list [] (UtreexoData_init node_utreexo) =
     (Inr \<lparr>state = None, proofs = [],
           expected = \<lparr>roots = [None, Some \<lparr>variant_id = 0, root_value = 0\<rparr>], num_leaves = 0\<rparr>\<rparr>,
      UtreexoData_init node_utreexo) \<and>
   fst (apply_blocks node_utreexo sum_list
     ([example_block_three, example_block_spend_one] @ [example_block_spend_two])
     (UtreexoData_init node_utreexo)) = Inr example_result_three \<and>
   state example_result_three =
     Some \<lparr>roots = [None, Some \<lparr>variant_id = 0, root_value = 2\<rparr>], num_leaves = 2\<rparr> \<and>
   expected example_result_three =
     \<lparr>roots = [None, Some \<lparr>variant_id = 0, root_value = 0\<rparr>], num_leaves = 0\<rparr> \<and>
   root_nodes node_utreexo (utreexo (snd (blocks_loop node_utreexo sum_list 3 0
     [example_block_three, example_block_spend_one] (None, []) (UtreexoData_init node_utreexo)))) =
     [None, Some \<lparr>val = ''0x02''\<rparr>] \<and>
   is_snapshot node_utreexo (snd (blocks_loop node_utreexo sum_list 3 0
     [example_block_three, example_block_spend_one] (None, []) (UtreexoData_init node_utreexo)))
     \<lparr>roots = [None, Some \<lparr>variant_id = 0, root_value = 2\<rparr>], num_leaves = 2\<rparr> \<and>
   is_snapshot node_utreexo (snd (apply_blocks node_utreexo sum_list
     ([example_block_three, example_block_spend_one] @ [example_block_spend_two])
     (UtreexoData_init node_utreexo)))
     \<lparr>roots = [None, Some \<lparr>variant_id = 0, root_value = 0\<rparr>], num_leaves = 0\<rparr>"
proof -
  let ?u = "UtreexoData_init node_utreexo"
  let ?pre = "[example_block_three, example_block_spend_one]"
  let ?run = "apply_blocks node_utreexo sum_list (?pre @ [example_block_spend_two]) ?u"
  let ?u1 = "snd (blocks_loop node_utreexo sum_list 3 0 ?pre (None, []) ?u)"
  let ?s0 = "\<lparr>roots = [None, Some \<lparr>variant_id = 0, root_value = 0\<rparr>], num_leaves = 0\<rparr>"
  note t = checkpoint_snapshots [of node_utreexo ?u sum_list ?pre example_block_spend_two]
  have i0: "is_snapshot node_utreexo ?u ?s0" by code_simp
  with t have e: "apply_blocks node_utreexo sum_list [] ?u =
      (Inr \<lparr>state = None, proofs = [], expected = ?s0\<rparr>, ?u)" by blast
  have f: "fst ?run = Inr example_result_three"
    using example_three_run by (metis fst_conv)
  have st: "state example_result_three =
     Some \<lparr>roots = [None, Some \<lparr>variant_id = 0, root_value = 2\<rparr>], num_leaves = 2\<rparr>"
    and ex: "expected example_result_three = ?s0"
    by (simp_all add: example_result_three_def)
  have rn: "root_nodes node_utreexo (utreexo ?u1) = [None, Some \<lparr>val = ''0x02''\<rparr>]"
    by code_simp
  from t example_three_run obtain u1 s where
    a: "blocks_loop node_utreexo sum_list (int (length ?pre) + 1) 0 ?pre (None, []) ?u
          = (Inr (None, []), u1)"
      "state example_result_three = Some s" "is_snapshot node_utreexo u1 s"
      "is_snapshot node_utreexo (snd ?run) (expected example_result_three)"
    by blast
  from a(1) example_three_earlier have u1: "u1 = ?u1" by simp
  from a(2) st have "s = \<lparr>roots = [None, Some \<lparr>variant_id = 0, root_value = 2\<rparr>], num_leaves = 2\<rparr>"
    by simp
  with a(3,4) u1 ex have
    "is_snapshot node_utreexo ?u1
       \<lparr>roots = [None, Some \<lparr>variant_id = 0, root_value = 2\<rparr>], num_leaves = 2\<rparr>"
    "is_snapshot node_utreexo (snd ?run) ?s0" by simp_all
  with i0 e f st ex rn show ?thesis by blast
qed

text \<open>
  Claim C7.  The inputs of the first transaction of each block play no part: with them
  replaced by any inputs whatsoever, in every block, \<^verbatim>\<open>apply_blocks\<close> returns the same
  outcome and leaves the same accumulator and the same log of accumulator calls.  So no
  remove call is issued for them.
\<close>

theorem coinbase_inputs_ignored:
  "apply_blocks ops H (map (with_coinbase_inputs g) blocks) u = apply_blocks ops H blocks u"
  by (simp add: apply_blocks_def blocks_loop_coinbase_inputs)

text \<open>
  Claim C8.  Processing a block all of whose referenced outputs and outputs are cached
  leaves the accumulator and the call log as they were: no call is made.  When such a
  block is the last one and \<^verbatim>\<open>apply_blocks\<close> returns a result, the snapshot taken before
  the block equals the final snapshot, and the accumulator is as the earlier blocks left
  it.
\<close>

theorem cached_block_untouched:
  "all_cached block \<longrightarrow>
     snd (apply_block ops H n k block sp u) = u \<and>
     (\<forall>r u'. apply_blocks ops H (pre @ [block]) u0 = (Inr r, u') \<longrightarrow>
        state r = Some (expected r) \<and>
        u' = snd (blocks_loop ops H (int (length pre) + 1) 0 pre (None, []) u0))"
proof (intro impI conjI allI)
  assume ac: "all_cached block"
  show "snd (apply_block ops H n k block sp u) = u"
    by (simp add: apply_block_cached [OF ac] split: sum.splits)
  fix r u'
  assume "apply_blocks ops H (pre @ [block]) u0 = (Inr r, u')"
  from apply_blocks_last [OF this] obtain u1 s where
    a: "blocks_loop ops H (int (length pre) + 1) 0 pre (None, []) u0 = (Inr (None, []), u1)"
    "apply_block ops H (int (length pre) + 1) (int (length pre)) block (None, []) u1
        = (Inr (Some s, proofs r), u')"
    "snapshot_state ops u1 = Inr s" "state r = Some s" "snapshot_state ops u' = Inr (expected r)"
    by blast
  have "snd (apply_block ops H (int (length pre) + 1) (int (length pre)) block (None, []) u1) = u1"
    by (simp add: apply_block_cached [OF ac] split: sum.splits)
  with a(2) have "u' = u1" by simp
  with a show "state r = Some (expected r)"
    and "u' = snd (blocks_loop ops H (int (length pre) + 1) 0 pre (None, []) u0)" by simp_all
qed

text \<open>
  C8 on the example block whose items are all cached.
\<close>

theorem cached_block_untouched_witness:
  "all_cached example_block_cached \<and>
   snd (apply_block list_utreexo sum_list 1 0 example_block_cached (None, [])
          (UtreexoData_init list_utreexo)) = UtreexoData_init list_utreexo \<and>
   apply_blocks list_utreexo sum_list ([] @ [example_block_cached]) (UtreexoData_init list_utreexo) =
     (Inr \<lparr>state = Some \<lparr>roots = [], num_leaves = 0\<rparr>, proofs = [],
           expected = \<lparr>roots = [], num_leaves = 0\<rparr>\<rparr>, UtreexoData_init list_utreexo) \<and>
   state \<lparr>state = Some \<lparr>roots = [], num_leaves = 0\<rparr>, proofs = [],
           expected = \<lparr>roots = [], num_leaves = 0\<rparr>\<rparr> =
     Some (expected \<lparr>state = Some \<lparr>roots = [], num_leaves = 0\<rparr>, proofs = [],
           expected = \<lparr>roots = [], num_leaves = 0\<rparr>\<rparr>)"
proof -
  let ?u = "UtreexoData_init list_utreexo"
  let ?r = "\<lparr>state = Some \<lparr>roots = [], num_leaves = 0\<rparr>, proofs = [],
           expected = \<lparr>roots = [], num_leaves = 0\<rparr>\<rparr>"
  have c: "all_cached example_block_cached" by code_simp
  have "fst (apply_blocks list_utreexo sum_list ([] @ [example_block_cached]) ?u) = Inr ?r"
    by code_simp
  moreover have "snd (apply_blocks list_utreexo sum_list ([] @ [example_block_cached]) ?u) = ?u"
    by code_simp
  ultimately have run: "apply_blocks list_utreexo sum_list ([] @ [example_block_cached]) ?u = (Inr ?r, ?u)"
    by (metis prod.collapse)
  from cached_block_untouched [of example_block_cached list_utreexo sum_list 1 0 "(None, [])" ?u
      "[]" ?u] c run
  have "snd (apply_block list_utreexo sum_list 1 0 example_block_cached (None, []) ?u) = ?u
      \<and> state ?r = Some (expected ?r)" by blast
  with c run show ?thesis by blast
qed

text \<open>
  Claim C10, as the code has it.  Every call that \<^verbatim>\<open>apply_blocks\<close> makes to the
  accumulator, remove or insert, passes the hash of an outpoint whose output is not
  cached.  The \<^verbatim>\<open>serialize()\<close> segment of the sequence compressed into the leaf ends with
  the cached flag 0; the compressed sequence itself goes on with the block hash, height
  and time, and ends with the coinbase flag.
\<close>

theorem accumulator_leaves_uncached:
  "\<exists>cs. calls (snd (apply_blocks ops H blocks u)) = calls u @ cs \<and> list_all (uncached_leaf H) cs"
proof -
  from apply_blocks_log [of ops H blocks u] obtain cs
    where cs: "calls (snd (apply_blocks ops H blocks u)) = calls u @ cs"
      "list_all (uncached_call H) cs" by blast
  from cs(2) have "list_all (uncached_leaf H) cs"
    by (simp add: list_all_iff uncached_call_leaf)
  with cs(1) show ?thesis by blast
qed

text \<open>
  C10 on the creating block followed by the spending block: one insert and one remove,
  both of the leaf of the example output.
\<close>

theorem accumulator_leaves_uncached_witness:
  "calls (snd (apply_blocks list_utreexo sum_list [example_block_create, example_block_spend]
      (UtreexoData_init list_utreexo))) =
     [Add (created_outpoint example_block_create 0 0) example_leaf (Inr ()),
      Delete (previous_output example_spend) example_leaf (Inr ([], 0))] \<and>
   uncached_leaf sum_list (Add (created_outpoint example_block_create 0 0) example_leaf (Inr ())) \<and>
   uncached_leaf sum_list (Delete (previous_output example_spend) example_leaf (Inr ([], 0)))"
proof -
  let ?u = "UtreexoData_init list_utreexo"
  let ?cs = "[Add (created_outpoint example_block_create 0 0) example_leaf (Inr ()),
      Delete (previous_output example_spend) example_leaf (Inr ([], 0))]"
  have c: "calls (snd (apply_blocks list_utreexo sum_list [example_block_create, example_block_spend] ?u))
      = ?cs" by code_simp
  have e: "calls ?u = []" by (simp add: UtreexoData_init_def)
  from accumulator_leaves_uncached [of list_utreexo sum_list
      "[example_block_create, example_block_spend]" ?u] c e
  have "list_all (uncached_leaf sum_list) ?cs" by simp
  with c show ?thesis by simp
qed

text \<open>
  Claim C10 as stated lets the compressed sequence end with 0.  The leaf inserted for
  the output of a coinbase transaction is compressed from a sequence that ends with 1,
  the coinbase flag.
\<close>

theorem compressed_sequence_end_counterexample:
  "calls (snd (apply_blocks list_utreexo sum_list [example_block_create]
      (UtreexoData_init list_utreexo))) =
     [Add (created_outpoint example_block_create 0 0) example_leaf (Inr ())] \<and>
   hash_elements (created_outpoint example_block_create 0 0) =
     Inr [0, 1329227995784915872903807060280344576, 0, 5000000000, 0, 0, 5, 0,
          228189351935217557851910030866009271211, 228189351935217557851910030866009271211,
          1, 10, 1] \<and>
   example_leaf = sum_list [0, 1329227995784915872903807060280344576, 0, 5000000000, 0, 0, 5, 0,
          228189351935217557851910030866009271211, 228189351935217557851910030866009271211,
          1, 10, 1] \<and>
   last [0, 1329227995784915872903807060280344576, 0, 5000000000, 0, 0, 5, 0,
          228189351935217557851910030866009271211, 228189351935217557851910030866009271211,
          1, 10, (1 :: int)] \<noteq> 0"
  by code_simp

end
